theory Spec2Isabelle
  imports Main "HOL-Library.Word"
begin

section \<open>Data model of the chat package\<close>

text \<open>
  The Go package keeps every participant as a heap object (\<^verbatim>\<open>*User\<close>) that is
  shared between the membership slice \<^verbatim>\<open>Chat.us\<close>, the name index
  \<^verbatim>\<open>Chat.ns\<close> and the callers that hold the handle returned by
  \<^verbatim>\<open>Register\<close>.  The embedding therefore has an explicit store: a handle is an
  index into the list of allocated \<^verbatim>\<open>User\<close> objects, and a handle stays
  valid after its participant has been removed from the registry, as a Go pointer does.
\<close>

type_synonym uref = nat

text \<open>The runtime panics the modelled code can raise.\<close>

datatype panic =
    NilDereference
  | NilMapAssignment
  | InconsistentState
  | IntnInvalidArgument

text \<open>
  \<^verbatim>\<open>interface{}\<close> values that occur in message parameters: what
  \<^verbatim>\<open>encoding/json\<close> decodes into, plus the \<^verbatim>\<open>int64\<close> of
  \<^verbatim>\<open>timestamp()\<close>.  A \<^verbatim>\<open>float64\<close> is kept as its bit pattern.
\<close>

datatype jvalue =
    JNull
  | JBool bool
  | JFloat64 "64 word"
  | JInt64 int
  | JString string
  | JArray "jvalue list"
  | JObject "(string \<times> jvalue) list"

text \<open>
  \<^verbatim>\<open>type Object map[string]interface{}\<close>.  A Go map value is either
  \<^verbatim>\<open>nil\<close> (\<open>None\<close>) or an allocated map; reading a nil map yields the zero
  value, writing to it panics, and \<^verbatim>\<open>encoding/json\<close> encodes it as
  \<^verbatim>\<open>null\<close> rather than \<^verbatim>\<open>{}\<close>.
\<close>

type_synonym Object = "(string \<rightharpoonup> jvalue) option"

datatype Request = Request (ID: int) (Method: string) (Params: Object)

datatype Response = Response (ResponseID: int) (Result: Object)

datatype Error = Error (ErrorID: int) (ErrorObject: Object)

text \<open>What \<^verbatim>\<open>User.write\<close> is handed as \<^verbatim>\<open>x interface{}\<close>.\<close>

datatype frame = NoticeFrame Request | ResultFrame Response | ErrorFrame Error

type_synonym goerror = string

text \<open>
  \<^verbatim>\<open>User\<close>: \<^verbatim>\<open>id\<close> and \<^verbatim>\<open>name\<close> as in the source.  The connection
  is the external transport; the model records the frames handed to \<^verbatim>\<open>write\<close>
  on it (oldest first) and whether \<^verbatim>\<open>Close\<close> has been called.
\<close>

record User =
  user_id :: "64 word"
  user_name :: string
  conn :: "frame list"
  closed :: bool

text \<open>
  \<^verbatim>\<open>Chat\<close>: \<^verbatim>\<open>seq\<close> is a Go \<^verbatim>\<open>uint\<close> (64 bits on the usual targets; it
  wraps).  \<^verbatim>\<open>out\<close> is the channel of encoded broadcasts; the model keeps the
  messages sent on it in order, each identified with the \<^verbatim>\<open>Request\<close> it encodes.
  \<open>users\<close> is the store of allocated \<^verbatim>\<open>User\<close> objects.
\<close>

record Chat =
  seq :: "64 word"
  us :: "uref list"
  ns :: "string \<rightharpoonup> uref"
  out :: "Request list"
  users :: "User list"

definition NewChat :: Chat where
  "NewChat = \<lparr>seq = 0, us = [], ns = Map.empty, out = [], users = []\<rparr>"

section \<open>Library functions used by the package\<close>

text \<open>\<^verbatim>\<open>strconv.Itoa\<close> on a non-negative argument.\<close>

function Itoa :: "nat \<Rightarrow> string" where
  "Itoa n =
     (if n < 10 then [''0123456789'' ! n]
      else Itoa (n div 10) @ [''0123456789'' ! (n mod 10)])"
  by pat_completeness auto
termination
  by (relation "measure id") auto

text \<open>
  \<^verbatim>\<open>sort.Search(n, f)\<close>: the binary search of the Go standard library,
  \<^verbatim>\<open>i, j := 0, n; for i < j { h := int(uint(i+j) >> 1); if !f(h) { i = h + 1 } else { j = h } }; return i\<close>.
\<close>

function Search_loop :: "(nat \<Rightarrow> bool) \<Rightarrow> nat \<Rightarrow> nat \<Rightarrow> nat" where
  "Search_loop f i j =
     (if i < j then
        let h = (i + j) div 2 in
        if \<not> f h then Search_loop f (h + 1) j else Search_loop f i h
      else i)"
  by pat_completeness auto
termination
  by (relation "measure (\<lambda>(f, i, j). j - i)") auto

definition Search :: "nat \<Rightarrow> (nat \<Rightarrow> bool) \<Rightarrow> nat" where
  "Search n f = Search_loop f 0 n"

section \<open>The registry: chat.go\<close>

text \<open>
  \<^verbatim>\<open>Chat.Broadcast\<close>: encodes \<^verbatim>\<open>Request{Method: method, Params: params}\<close>
  (the id keeps its zero value) and sends the bytes on \<^verbatim>\<open>c.out\<close>.
\<close>

definition Broadcast :: "string \<Rightarrow> Object \<Rightarrow> Chat \<Rightarrow> Chat" where
  "Broadcast method params c = c\<lparr>out := out c @ [Request 0 method params]\<rparr>"

text \<open>
  \<^verbatim>\<open>User.write\<close>: the frame is handed to the connection of the user; the error
  the transport returns is an input of the caller.
\<close>

definition write_frame :: "uref \<Rightarrow> frame \<Rightarrow> Chat \<Rightarrow> Chat" where
  "write_frame u x c =
     c\<lparr>users := (users c)[u := (users c ! u)\<lparr>conn := conn (users c ! u) @ [x]\<rparr>]\<rparr>"

definition writeErrorTo :: "uref \<Rightarrow> Request \<Rightarrow> Object \<Rightarrow> Chat \<Rightarrow> Chat" where
  "writeErrorTo u req err c = write_frame u (ErrorFrame (Error (ID req) err)) c"

definition writeResultTo :: "uref \<Rightarrow> Request \<Rightarrow> Object \<Rightarrow> Chat \<Rightarrow> Chat" where
  "writeResultTo u req result c = write_frame u (ResultFrame (Response (ID req) result)) c"

definition writeNotice :: "uref \<Rightarrow> string \<Rightarrow> Object \<Rightarrow> Chat \<Rightarrow> Chat" where
  "writeNotice u method params c = write_frame u (NoticeFrame (Request 0 method params)) c"

text \<open>
  \<^verbatim>\<open>Chat.randName\<close>.  The word list \<^verbatim>\<open>animals\<close> is a package-level
  variable declared outside chat.go; here it is a parameter.  The random source is the
  sequence \<open>rnd\<close> of raw draws, read from position \<open>k\<close>; \<^verbatim>\<open>rand.Intn(n)\<close>
  panics for \<open>n = 0\<close> and otherwise reduces the next draw into \<open>[0, n)\<close>.  The loop
  has no bound in the source, so the model is a partial function: \<open>None\<close> is a run that
  never returns.
\<close>

partial_function (option) randName_loop ::
  "string list \<Rightarrow> (string \<rightharpoonup> uref) \<Rightarrow> (nat \<Rightarrow> nat) \<Rightarrow> nat \<Rightarrow> string \<Rightarrow> (panic + string) option"
where
  "randName_loop animals m rnd k suffix =
     (if length animals = 0 then Some (Inl IntnInvalidArgument)
      else
        let name = animals ! (rnd k mod length animals) @ suffix in
        if m name = None then Some (Inr name)
        else randName_loop animals m rnd (k + 2) (suffix @ Itoa (rnd (k + 1) mod 10)))"

declare randName_loop.simps [code]

definition randName :: "string list \<Rightarrow> (nat \<Rightarrow> nat) \<Rightarrow> Chat \<Rightarrow> (panic + string) option" where
  "randName animals rnd c = randName_loop animals (ns c) rnd 0 []"

text \<open>
  \<^verbatim>\<open>Chat.Register\<close>.  \<open>now\<close> is what \<^verbatim>\<open>timestamp()\<close> returns.  The new
  \<^verbatim>\<open>User\<close> object is allocated at the end of the store.
\<close>

definition Register ::
  "string list \<Rightarrow> (nat \<Rightarrow> nat) \<Rightarrow> int \<Rightarrow> Chat \<Rightarrow> (panic + uref \<times> Chat) option" where
  "Register animals rnd now c =
     (case randName animals rnd c of
        None \<Rightarrow> None
      | Some (Inl p) \<Rightarrow> Some (Inl p)
      | Some (Inr nm) \<Rightarrow>
          let user = length (users c);
              c1 = c\<lparr>users := users c @ [\<lparr>user_id = seq c, user_name = nm, conn = [], closed = False\<rparr>]\<rparr>;
              c2 = c1\<lparr>us := us c1 @ [user]\<rparr>;
              c3 = c2\<lparr>ns := (ns c2)(nm \<mapsto> user)\<rparr>;
              c4 = c3\<lparr>seq := seq c3 + 1\<rparr>;
              c5 = writeNotice user ''hello'' (Some [''name'' \<mapsto> JString nm]) c4;
              c6 = Broadcast ''greet'' (Some [''name'' \<mapsto> JString nm, ''time'' \<mapsto> JInt64 now]) c5
          in Some (Inr (user, c6)))"

text \<open>
  \<^verbatim>\<open>Chat.Rename\<close>.  The map is consulted first; the user object is only
  dereferenced in the branch that renames.
\<close>

definition Rename :: "uref \<Rightarrow> string \<Rightarrow> Chat \<Rightarrow> panic + (string \<times> bool \<times> Chat)" where
  "Rename user name c =
     (if ns c name = None then
        if length (users c) \<le> user then Inl NilDereference
        else
          let prev = user_name (users c ! user);
              c1 = c\<lparr>users := (users c)[user := (users c ! user)\<lparr>user_name := name\<rparr>]\<rparr>;
              c2 = c1\<lparr>ns := (ns c1)(prev := None)\<rparr>;
              c3 = c2\<lparr>ns := (ns c2)(name \<mapsto> user)\<rparr>
          in Inr (prev, True, c3)
      else Inr ([], False, c))"

text \<open>
  \<^verbatim>\<open>Chat.remove\<close> (the mutex is held by the caller).  The panic leaves the
  process; the model returns it in place of a state.
\<close>

definition remove :: "uref \<Rightarrow> Chat \<Rightarrow> panic + (bool \<times> Chat)" where
  "remove user c =
     (if length (users c) \<le> user then Inl NilDereference
      else if ns c (user_name (users c ! user)) = None then Inr (False, c)
      else
        let c1 = c\<lparr>ns := (ns c)(user_name (users c ! user) := None)\<rparr>;
            i = Search (length (us c1))
                  (\<lambda>i. user_id (users c1 ! (us c1 ! i)) \<ge> user_id (users c1 ! user))
        in if i \<ge> length (us c1) then Inl InconsistentState
           else Inr (True, c1\<lparr>us := take i (us c1) @ drop (i + 1) (us c1)\<rparr>))"

text \<open>\<^verbatim>\<open>Chat.Remove\<close>: the goodbye notice is broadcast only after a removal.\<close>

definition Remove :: "int \<Rightarrow> uref \<Rightarrow> Chat \<Rightarrow> panic + Chat" where
  "Remove now user c =
     (case remove user c of
        Inl p \<Rightarrow> Inl p
      | Inr (removed, c1) \<Rightarrow>
          if \<not> removed then Inr c1
          else Inr (Broadcast ''goodbye''
                 (Some [''name'' \<mapsto> JString (user_name (users c1 ! user)), ''time'' \<mapsto> JInt64 now]) c1))"

section \<open>The connection handler: User.Receive\<close>

text \<open>\<^verbatim>\<open>u.conn.Close()\<close>.\<close>

definition Close :: "uref \<Rightarrow> Chat \<Rightarrow> Chat" where
  "Close u c = c\<lparr>users := (users c)[u := (users c ! u)\<lparr>closed := True\<rparr>]\<rparr>"

text \<open>\<^verbatim>\<open>params[key]\<close>: indexing a nil map gives the zero value, as a missing key does.\<close>

definition index_Object :: "Object \<Rightarrow> string \<Rightarrow> jvalue option" where
  "index_Object params key = (case params of None \<Rightarrow> None | Some m \<Rightarrow> m key)"

text \<open>
  \<^verbatim>\<open>User.Receive\<close>, one receive step of user \<open>u\<close>.  The transport is
  external, so what it does is an input of the step: \<open>rd\<close> is the pair
  \<^verbatim>\<open>(req, err)\<close> that \<^verbatim>\<open>readRequest\<close> returns (a read failure, a
  control frame and a decode failure give no request), \<open>werr\<close> is the error returned by
  the write of a direct reply, should the step make one, and \<open>now\<close> is the value of
  \<^verbatim>\<open>timestamp()\<close>.  The step returns the \<^verbatim>\<open>error\<close> of the source
  (\<open>None\<close> is \<^verbatim>\<open>nil\<close>) and the new state, or the panic that ends it.
\<close>

definition Receive ::
  "uref \<Rightarrow> Request option \<times> goerror option \<Rightarrow> int \<Rightarrow> goerror option \<Rightarrow> Chat
    \<Rightarrow> panic + (goerror option \<times> Chat)" where
  "Receive u rd now werr c =
     (if length (users c) \<le> u then Inl NilDereference
      else if snd rd \<noteq> None then Inr (snd rd, Close u c)
      else
        case fst rd of
          None \<Rightarrow> Inr (None, c)
        | Some req \<Rightarrow>
            if Method req = ''rename'' then
              (case index_Object (Params req) ''name'' of
                 Some (JString name) \<Rightarrow>
                   (case Rename u name c of
                      Inl p \<Rightarrow> Inl p
                    | Inr (prev, ok, c1) \<Rightarrow>
                        if \<not> ok then
                          Inr (werr, writeErrorTo u req (Some [''error'' \<mapsto> JString ''already exists'']) c1)
                        else
                          let c2 = Broadcast ''rename''
                                     (Some [''prev'' \<mapsto> JString prev, ''name'' \<mapsto> JString name,
                                            ''time'' \<mapsto> JInt64 now]) c1
                          in Inr (werr, writeResultTo u req None c2))
               | _ \<Rightarrow> Inr (werr, writeErrorTo u req (Some [''error'' \<mapsto> JString ''bad params'']) c))
            else if Method req = ''publish'' then
              (case Params req of
                 None \<Rightarrow> Inl NilMapAssignment
               | Some m \<Rightarrow>
                   let m1 = m(''author'' \<mapsto> JString (user_name (users c ! u)));
                       m2 = m1(''time'' \<mapsto> JInt64 now)
                   in Inr (None, Broadcast ''publish'' (Some m2) c))
            else Inr (werr, writeErrorTo u req (Some [''error'' \<mapsto> JString ''not implemented'']) c))"

section \<open>The dispatcher: Chat.writer and the worker pool\<close>

text \<open>
  \<^verbatim>\<open>User.writeRaw\<close>: the encoded broadcast is written to the connection; on the
  wire it is the notice it encodes.
\<close>

definition writeRaw :: "uref \<Rightarrow> Request \<Rightarrow> Chat \<Rightarrow> Chat" where
  "writeRaw u p c = write_frame u (NoticeFrame p) c"

text \<open>
  \<^verbatim>\<open>Chat.writer\<close>: for every message received from \<^verbatim>\<open>c.out\<close>, in channel
  order, one task per user of the membership slice read at that moment is handed to
  \<^verbatim>\<open>pool.Schedule\<close>, in slice order.  A task is the pair of the captured user and
  bytes.  The argument lists the received messages, each with the membership slice
  \<^verbatim>\<open>c.us\<close> the loop body read for it; the result lists the scheduled tasks in the
  order of the \<^verbatim>\<open>Schedule\<close> calls.
\<close>

type_synonym task = "uref \<times> Request"

fun writer :: "(Request \<times> uref list) list \<Rightarrow> task list" where
  "writer [] = []"
| "writer ((bts, snapshot) # rest) = map (\<lambda>u. (u, bts)) snapshot @ writer rest"

text \<open>
  \<^verbatim>\<open>GopoolInterface\<close> is an interface; its only contract is that a scheduled task
  is run.  The pool is therefore a parameter: \<open>sched\<close> lists, step by step, the position
  among the pending tasks of the task the pool runs next.
\<close>

fun pool_run :: "nat list \<Rightarrow> task list \<Rightarrow> Chat \<Rightarrow> Chat" where
  "pool_run [] pending c = c"
| "pool_run (i # sched) pending c =
     (if i < length pending then
        pool_run sched (take i pending @ drop (Suc i) pending)
          (writeRaw (fst (pending ! i)) (snd (pending ! i)) c)
      else pool_run sched pending c)"

text \<open>
  The pools that keep the tasks of each user in order and run every task: whenever the
  pool runs a task, no task scheduled before it for the same user is still pending, and
  at the end nothing is pending.  Tasks of different users may run in any order.
\<close>

fun runs_in_order :: "nat list \<Rightarrow> task list \<Rightarrow> bool" where
  "runs_in_order [] pending = (pending = [])"
| "runs_in_order (i # sched) pending =
     (if i < length pending then
        fst (pending ! i) \<notin> set (map fst (take i pending)) \<and>
        runs_in_order sched (take i pending @ drop (Suc i) pending)
      else runs_in_order sched pending)"

text \<open>A pool that runs the tasks one at a time in the order of the \<^verbatim>\<open>Schedule\<close> calls.\<close>

definition fifo :: "task list \<Rightarrow> nat list" where
  "fifo pending = replicate (length pending) 0"

section \<open>The per-connection mutex: User.io\<close>

text \<open>
  The three functions of \<^verbatim>\<open>User\<close> that touch the connection, as the sequences of
  their steps on \<^verbatim>\<open>u.io\<close> and \<^verbatim>\<open>u.conn\<close>: \<^verbatim>\<open>readRequest\<close> locks, reads
  one frame (\<^verbatim>\<open>NextReader\<close> up to \<^verbatim>\<open>Decode\<close>) and unlocks on return;
  \<^verbatim>\<open>write\<close> and \<^verbatim>\<open>writeRaw\<close> lock, write and unlock on return.
\<close>

datatype action = LockIO | UnlockIO | ReadBegin | ReadEnd | WriteBytes

datatype call = CallReadRequest | CallWrite | CallWriteRaw

fun path :: "call \<Rightarrow> action list" where
  "path CallReadRequest = [LockIO, ReadBegin, ReadEnd, UnlockIO]"
| "path CallWrite = [LockIO, WriteBytes, UnlockIO]"
| "path CallWriteRaw = [LockIO, WriteBytes, UnlockIO]"

text \<open>
  The goroutines that work on one user: \<open>holder\<close> is the goroutine that holds
  \<^verbatim>\<open>u.io\<close>, \<open>reading\<close> says that a frame read is in progress, \<open>pcs\<close> gives
  for each goroutine the steps left of the call it is in, \<open>todo\<close> the calls it has yet to
  make, and \<open>overlap\<close> records whether bytes were ever written while a read was in
  progress.
\<close>

record io_state =
  holder :: "nat option"
  reading :: bool
  pcs :: "action list list"
  todo :: "call list list"
  overlap :: bool

definition io_init :: "call list list \<Rightarrow> io_state" where
  "io_init calls =
     \<lparr>holder = None, reading = False, pcs = replicate (length calls) [], todo = calls,
      overlap = False\<rparr>"

text \<open>
  One step of goroutine \<open>t\<close>.  \<^verbatim>\<open>Lock\<close> on a held mutex blocks: the goroutine
  does not move.
\<close>

definition io_step :: "nat \<Rightarrow> io_state \<Rightarrow> io_state" where
  "io_step t s =
     (if length (pcs s) \<le> t \<or> length (todo s) \<le> t then s
      else
        case pcs s ! t of
          [] \<Rightarrow>
            (case todo s ! t of
               [] \<Rightarrow> s
             | cl # rest \<Rightarrow> s\<lparr>pcs := (pcs s)[t := path cl], todo := (todo s)[t := rest]\<rparr>)
        | a # rest \<Rightarrow>
            (case a of
               LockIO \<Rightarrow>
                 if holder s = None then s\<lparr>holder := Some t, pcs := (pcs s)[t := rest]\<rparr> else s
             | UnlockIO \<Rightarrow> s\<lparr>holder := None, pcs := (pcs s)[t := rest]\<rparr>
             | ReadBegin \<Rightarrow> s\<lparr>reading := True, pcs := (pcs s)[t := rest]\<rparr>
             | ReadEnd \<Rightarrow> s\<lparr>reading := False, pcs := (pcs s)[t := rest]\<rparr>
             | WriteBytes \<Rightarrow>
                 s\<lparr>overlap := overlap s \<or> reading s, pcs := (pcs s)[t := rest]\<rparr>))"

fun io_run :: "nat list \<Rightarrow> io_state \<Rightarrow> io_state" where
  "io_run [] s = s"
| "io_run (t # sched) s = io_run sched (io_step t s)"

section \<open>Sequences of registry operations\<close>

text \<open>The calls of the public registry interface, with the inputs of each.\<close>

datatype op = OpRegister "nat \<Rightarrow> nat" int | OpRename uref string | OpRemove int uref

fun apply_op :: "string list \<Rightarrow> op \<Rightarrow> Chat \<Rightarrow> (panic + Chat) option" where
  "apply_op animals (OpRegister rnd now) c =
     (case Register animals rnd now c of
        None \<Rightarrow> None
      | Some (Inl p) \<Rightarrow> Some (Inl p)
      | Some (Inr (user, c1)) \<Rightarrow> Some (Inr c1))"
| "apply_op animals (OpRename user name) c =
     (case Rename user name c of
        Inl p \<Rightarrow> Some (Inl p)
      | Inr (prev, ok, c1) \<Rightarrow> Some (Inr c1))"
| "apply_op animals (OpRemove now user) c = Some (Remove now user c)"

text \<open>A run stops at the first panic; \<open>None\<close> is a run that never returns.\<close>

fun run :: "string list \<Rightarrow> op list \<Rightarrow> Chat \<Rightarrow> (panic + Chat) option" where
  "run animals [] c = Some (Inr c)"
| "run animals (x # xs) c =
     (case apply_op animals x c of
        None \<Rightarrow> None
      | Some (Inl p) \<Rightarrow> Some (Inl p)
      | Some (Inr c1) \<Rightarrow> run animals xs c1)"

text \<open>The display names of the active participants, in membership order.\<close>

definition names :: "Chat \<Rightarrow> string list" where
  "names c = map (\<lambda>u. user_name (users c ! u)) (us c)"

text \<open>
  The membership slice and the name index describe the same membership: a name is
  mapped to a user exactly when that user is a member and has that name, and no user is
  a member twice.
\<close>

definition agree :: "Chat \<Rightarrow> bool" where
  "agree c \<longleftrightarrow>
     (\<forall>n u. ns c n = Some u \<longleftrightarrow> u \<in> set (us c) \<and> user_name (users c ! u) = n) \<and>
     distinct (us c)"

text \<open>
  The calls the registry copes with.  \<^verbatim>\<open>Rename\<close> and \<^verbatim>\<open>Remove\<close> may be
  applied to any member.  Applied to a user that is not a member, \<^verbatim>\<open>Rename\<close> must
  ask for a name that is in the name index (the call then fails and changes nothing), and
  \<^verbatim>\<open>Remove\<close> must find the stored name of the allocated user absent from the name
  index (the call is then the reported no-op).  \<^verbatim>\<open>Register\<close> is called before the
  counter \<^verbatim>\<open>seq\<close> reaches the largest \<^verbatim>\<open>uint\<close>.
\<close>

fun proper_op :: "op \<Rightarrow> Chat \<Rightarrow> bool" where
  "proper_op (OpRegister rnd now) c = (seq c \<noteq> - 1)"
| "proper_op (OpRename user name) c = (user \<in> set (us c) \<or> ns c name \<noteq> None)"
| "proper_op (OpRemove now user) c =
     (user \<in> set (us c) \<or>
      (user < length (users c) \<and> ns c (user_name (users c ! user)) = None))"

fun proper_run :: "string list \<Rightarrow> op list \<Rightarrow> Chat \<Rightarrow> bool" where
  "proper_run animals [] c = True"
| "proper_run animals (x # xs) c =
     (proper_op x c \<and>
      (case apply_op animals x c of Some (Inr c1) \<Rightarrow> proper_run animals xs c1 | _ \<Rightarrow> True))"

text \<open>
  What the registry operations rely on and maintain: the two structures agree, every
  member is an allocated user, the membership slice is strictly ordered by id (the order
  \<^verbatim>\<open>sort.Search\<close> needs), and every id of a member is below the counter.
\<close>

definition registry_inv :: "Chat \<Rightarrow> bool" where
  "registry_inv c \<longleftrightarrow>
     agree c \<and>
     (\<forall>u \<in> set (us c). u < length (users c)) \<and>
     sorted_wrt (<) (map (\<lambda>u. user_id (users c ! u)) (us c)) \<and>
     (\<forall>u \<in> set (us c). user_id (users c ! u) < seq c)"

text \<open>
  The positions of a goroutine inside a call: before the lock is taken (or between
  calls), and inside the section the lock protects.  The invariant of the mutex: no bytes
  were written during a read, every goroutine is at one of these positions, a goroutine
  inside the section holds the mutex, and a read in progress belongs to a goroutine that
  is inside the section.
\<close>

definition in_section :: "action list \<Rightarrow> bool" where
  "in_section pc \<longleftrightarrow>
     pc = [ReadBegin, ReadEnd, UnlockIO] \<or> pc = [ReadEnd, UnlockIO] \<or>
     pc = [WriteBytes, UnlockIO] \<or> pc = [UnlockIO]"

definition at_call :: "action list \<Rightarrow> bool" where
  "at_call pc \<longleftrightarrow>
     pc = [] \<or> pc = [LockIO, ReadBegin, ReadEnd, UnlockIO] \<or> pc = [LockIO, WriteBytes, UnlockIO]"

definition io_inv :: "io_state \<Rightarrow> bool" where
  "io_inv s \<longleftrightarrow>
     \<not> overlap s \<and>
     (\<forall>t < length (pcs s). at_call (pcs s ! t) \<or> in_section (pcs s ! t)) \<and>
     (\<forall>t < length (pcs s). in_section (pcs s ! t) \<longrightarrow> holder s = Some t) \<and>
     (reading s \<longrightarrow> (\<exists>t < length (pcs s). pcs s ! t = [ReadEnd, UnlockIO]))"

section \<open>Example inputs\<close>

text \<open>A two-word list, a registry with two members, and some runs from the empty registry.\<close>

definition animals0 :: "string list" where
  "animals0 = [''cat'', ''dog'']"

definition c_two :: Chat where
  "c_two =
     \<lparr>seq = 2, us = [0, 1], ns = [''cat'' \<mapsto> 0, ''dog'' \<mapsto> 1], out = [],
      users = [\<lparr>user_id = 0, user_name = ''cat'', conn = [], closed = False\<rparr>,
               \<lparr>user_id = 1, user_name = ''dog'', conn = [], closed = False\<rparr>]\<rparr>"

text \<open>
  P and Q register (P is named cat, Q cat0), P is removed, Q takes the name cat.
\<close>

definition ops_namesake :: "op list" where
  "ops_namesake =
     [OpRegister (\<lambda>k. 0) 1, OpRegister (\<lambda>k. 0) 2, OpRemove 3 0, OpRename 1 ''cat'']"

text \<open>
  P and Q register (P is named cat, Q cat0), Q is removed, P takes the name cat0.
\<close>

definition ops_older_namesake :: "op list" where
  "ops_older_namesake =
     [OpRegister (\<lambda>k. 0) 1, OpRegister (\<lambda>k. 0) 2, OpRemove 3 1, OpRename 0 ''cat0'']"

text \<open>
  P registers (cat) and is removed, Q registers (cat again), the removed P is renamed
  to fox, and R registers.
\<close>

definition ops_stale_rename :: "op list" where
  "ops_stale_rename =
     [OpRegister (\<lambda>k. 0) 1, OpRemove 2 0, OpRegister (\<lambda>k. 0) 3, OpRename 0 ''fox'',
      OpRegister (\<lambda>k. 0) 4]"

text \<open>
  P registers (cat) and is removed, Q registers (cat again), and the removed P is renamed
  to fox: the entry of Q has been deleted and fox is mapped to P, who is not a member.
\<close>

definition ops_orphan_entry :: "op list" where
  "ops_orphan_entry =
     [OpRegister (\<lambda>k. 0) 1, OpRemove 2 0, OpRegister (\<lambda>k. 0) 3, OpRename 0 ''fox'']"

text \<open>P registers (cat) and is removed.\<close>

definition ops_removed :: "op list" where
  "ops_removed = [OpRegister (\<lambda>k. 0) 1, OpRemove 2 0]"

text \<open>
  P, Q and R register (cat, cat0, cat00), Q is removed, P takes the name cat0, and Q is
  removed once more.
\<close>

definition ops_stale_remove :: "op list" where
  "ops_stale_remove =
     [OpRegister (\<lambda>k. 0) 1, OpRegister (\<lambda>k. 0) 2, OpRegister (\<lambda>k. 0) 3, OpRemove 4 1,
      OpRename 0 ''cat0'', OpRemove 5 1]"

text \<open>The same, followed by the registration of R, who is named dog.\<close>

definition ops_orphan_entry_dog :: "op list" where
  "ops_orphan_entry_dog = ops_orphan_entry @ [OpRegister (\<lambda>k. 1) 4]"

text \<open>
  P and Q register, P is renamed to fox, Q is removed, Q is removed a second time, and
  the removed Q asks for the name fox.
\<close>

definition ops_members :: "op list" where
  "ops_members =
     [OpRegister (\<lambda>k. 0) 1, OpRegister (\<lambda>k. 0) 2, OpRename 0 ''fox'', OpRemove 3 1,
      OpRemove 4 1, OpRename 1 ''fox'']"

text \<open>Requests a client can send, and two broadcast messages.\<close>


definition req_unknown :: Request where
  "req_unknown = Request 7 ''whisper'' (Some [''text'' \<mapsto> JString ''hi''])"

definition req_rename_fox :: Request where
  "req_rename_fox = Request 1 ''rename'' (Some [''name'' \<mapsto> JString ''fox''])"

definition req_rename_cat :: Request where
  "req_rename_cat = Request 4 ''rename'' (Some [''name'' \<mapsto> JString ''cat''])"

definition req_rename_dog :: Request where
  "req_rename_dog = Request 2 ''rename'' (Some [''name'' \<mapsto> JString ''dog''])"

definition req_rename_bad :: Request where
  "req_rename_bad = Request 3 ''rename'' (Some [''name'' \<mapsto> JInt64 5])"

definition req_publish_nil :: Request where
  "req_publish_nil = Request 0 ''publish'' None"

definition msgA :: Request where
  "msgA = Request 0 ''publish'' (Some [''text'' \<mapsto> JString ''A''])"

definition msgB :: Request where
  "msgB = Request 0 ''publish'' (Some [''text'' \<mapsto> JString ''B''])"

text \<open>A reader and a writer on one connection, and a schedule that lets the reader go first.\<close>


definition calls_read_write :: "call list list" where
  "calls_read_write = [[CallReadRequest], [CallWriteRaw]]"

definition sched_read_then_write :: "nat list" where
  "sched_read_then_write = [0, 0, 0, 1, 1, 1]"

section \<open>Default names: the loop of randName returns\<close>

lemma length_Itoa_digit: "d < 10 \<Longrightarrow> length (Itoa d) = 1"
  by simp

text \<open>
  Every round of the loop makes the suffix one digit longer, and a candidate is at least as
  long as its suffix: once the suffix is longer than every name of the index, the
  candidate is free.
\<close>

lemma randName_loop_returns:
  assumes "animals \<noteq> []" and "\<forall>n \<in> dom m. length n \<le> B"
  shows "\<exists>name. randName_loop animals m rnd k suffix = Some (Inr name) \<and> m name = None"
  using assms
proof (induction "Suc B - length suffix" arbitrary: suffix k rule: less_induct)
  case less
  let ?name = "animals ! (rnd k mod length animals) @ suffix"
  show ?case
  proof (cases "m ?name = None")
    case True
    with less.prems show ?thesis
      by (subst randName_loop.simps) (simp add: Let_def)
  next
    case False
    then have "?name \<in> dom m" by auto
    with less.prems have "length ?name \<le> B" by blast
    then have "length suffix \<le> B" by simp
    let ?s = "suffix @ Itoa (rnd (k + 1) mod 10)"
    have "length ?s = Suc (length suffix)" by simp
    with \<open>length suffix \<le> B\<close> have "Suc B - length ?s < Suc B - length suffix" by simp
    from less.hyps[OF this less.prems]
    obtain name where "randName_loop animals m rnd (k + 2) ?s = Some (Inr name) \<and> m name = None"
      by blast
    with False less.prems(1) show ?thesis
      by (subst randName_loop.simps) (simp add: Let_def)
  qed
qed

lemma finite_dom_bound:
  assumes "finite (dom (m :: string \<rightharpoonup> 'a))"
  shows "\<exists>B. \<forall>n \<in> dom m. length n \<le> B"
proof -
  from assms have "finite (length ` dom m)" by simp
  then have "\<forall>n \<in> dom m. length n \<le> Max (length ` dom m)" by simp
  then show ?thesis by blast
qed

lemma randName_returns:
  assumes "finite (dom (ns c))" and "animals \<noteq> []"
  shows "\<exists>name. randName animals rnd c = Some (Inr name) \<and> ns c name = None"
proof -
  from finite_dom_bound[OF assms(1)] obtain B where "\<forall>n \<in> dom (ns c). length n \<le> B" ..
  from randName_loop_returns[OF assms(2) this] show ?thesis
    by (simp add: randName_def)
qed

text \<open>
  Claim C9.  For a registry whose name index holds finitely many names, a non-empty word
  list and any sequence of random draws, \<^verbatim>\<open>randName\<close> returns (it neither loops
  forever nor panics), and the name it returns is not in the name index.
\<close>

theorem randName_terminates:
  assumes "finite (dom (ns c))" and "animals \<noteq> []"
  shows "\<exists>name. randName animals rnd c = Some (Inr name) \<and> ns c name = None"
proof -
  from finite_dom_bound[OF assms(1)] obtain B where "\<forall>n \<in> dom (ns c). length n \<le> B" ..
  from randName_loop_returns[OF assms(2) this] show ?thesis
    by (simp add: randName_def)
qed

theorem randName_terminates_witness:
  "finite (dom (ns (NewChat\<lparr>ns := [''cat'' \<mapsto> 0]\<rparr>))) \<and> [''cat''] \<noteq> [] \<and>
   (\<exists>name. randName [''cat''] (\<lambda>k. 7) (NewChat\<lparr>ns := [''cat'' \<mapsto> 0]\<rparr>) = Some (Inr name) \<and>
      ns (NewChat\<lparr>ns := [''cat'' \<mapsto> 0]\<rparr>) name = None)"
  using randName_terminates[of "NewChat\<lparr>ns := [''cat'' \<mapsto> 0]\<rparr>" "[''cat'']" "\<lambda>k. 7"]
  by simp

section \<open>Binary search on a strictly ordered slice\<close>

text \<open>
  When the predicate is false below a threshold and true from it on, the search returns
  the threshold; on a slice strictly ordered by a key it finds the position of an element
  from its key.
\<close>

lemma Search_loop_threshold:
  assumes "\<forall>k<n. f k \<longleftrightarrow> t \<le> k" and "i \<le> t" and "t \<le> j" and "j \<le> n"
  shows "Search_loop f i j = t"
  using assms
proof (induction f i j rule: Search_loop.induct)
  case (1 f i j)
  show ?case
  proof (cases "i < j")
    case False
    with 1(4,5) show ?thesis by simp
  next
    case True
    let ?h = "(i + j) div 2"
    from True have h: "i \<le> ?h" "?h < j" by auto
    with 1(6) have hn: "?h < n" by simp
    show ?thesis
    proof (cases "f ?h")
      case fh: True
      with 1(3) hn have "t \<le> ?h" by blast
      with 1(2)[OF True refl _ 1(3) 1(4)] fh h 1(6) have "Search_loop f i ?h = t" by simp
      with True fh show ?thesis by (subst Search_loop.simps) (simp add: Let_def)
    next
      case nfh: False
      with 1(3) hn have "?h + 1 \<le> t" by auto
      with 1(1)[OF True refl nfh 1(3) _ 1(5) 1(6)] have "Search_loop f (?h + 1) j = t" by simp
      with True nfh show ?thesis by (subst Search_loop.simps) (simp add: Let_def)
    qed
  qed
qed

lemma Search_sorted_index:
  fixes key :: "'a \<Rightarrow> 'b :: linorder"
  assumes "sorted_wrt (<) (map key xs)" and "k < length xs"
  shows "Search (length xs) (\<lambda>i. key (xs ! i) \<ge> key (xs ! k)) = k"
proof -
  have "\<forall>i<length xs. (key (xs ! k) \<le> key (xs ! i)) \<longleftrightarrow> k \<le> i"
  proof (intro allI impI)
    fix i assume i: "i < length xs"
    from assms(1) have lt: "\<And>a b. a < b \<Longrightarrow> b < length xs \<Longrightarrow> key (xs ! a) < key (xs ! b)"
      by (simp add: sorted_wrt_iff_nth_less)
    show "(key (xs ! k) \<le> key (xs ! i)) \<longleftrightarrow> k \<le> i"
    proof
      assume le: "key (xs ! k) \<le> key (xs ! i)"
      show "k \<le> i"
      proof (rule ccontr)
        assume "\<not> k \<le> i"
        then have "i < k" by simp
        from lt[OF this assms(2)] le show False by simp
      qed
    next
      assume "k \<le> i"
      then consider "k = i" | "k < i" by linarith
      then show "key (xs ! k) \<le> key (xs ! i)"
      proof cases
        case 1 then show ?thesis by simp
      next
        case 2 from lt[OF this i] show ?thesis by simp
      qed
    qed
  qed
  from Search_loop_threshold[OF this, of 0 "length xs"] assms(2) show ?thesis
    by (simp add: Search_def)
qed

lemma take_drop_remove1:
  "distinct xs \<Longrightarrow> k < length xs \<Longrightarrow> take k xs @ drop (Suc k) xs = remove1 (xs ! k) xs"
proof (induction xs arbitrary: k)
  case Nil
  then show ?case by simp
next
  case (Cons x xs)
  then show ?case by (cases k) auto
qed

section \<open>Rename\<close>

lemma agree_free_iff:
  assumes "agree c"
  shows "ns c n = None \<longleftrightarrow> (\<forall>v \<in> set (us c). user_name (users c ! v) \<noteq> n)"
proof
  assume "ns c n = None"
  with assms show "\<forall>v \<in> set (us c). user_name (users c ! v) \<noteq> n"
    unfolding agree_def by (metis option.distinct(1))
next
  assume *: "\<forall>v \<in> set (us c). user_name (users c ! v) \<noteq> n"
  show "ns c n = None"
  proof (rule ccontr)
    assume "ns c n \<noteq> None"
    then obtain u where "ns c n = Some u" by auto
    with assms have "u \<in> set (us c) \<and> user_name (users c ! u) = n"
      unfolding agree_def by blast
    with * show False by blast
  qed
qed

lemma agree_member_name:
  assumes "agree c" and "p \<in> set (us c)"
  shows "ns c (user_name (users c ! p)) = Some p"
  using assms unfolding agree_def by blast

text \<open>
  Claim C4, as amended.  In a registry whose membership slice and name index describe the
  same membership, for an allocated user \<open>p\<close> that is an active participant:
  \<^verbatim>\<open>Rename(p, n)\<close> returns normally; it succeeds exactly when no
  active participant holds \<open>n\<close>, and the own current name of \<open>p\<close> counts as held; on
  failure the state is unchanged; on success the previous name is returned and becomes
  free, \<open>n\<close> is mapped to \<open>p\<close>, the stored name of \<open>p\<close> is \<open>n\<close>, and nothing else
  changes.
\<close>

theorem Rename_succeeds_iff_free:
  assumes "agree c" and "p \<in> set (us c)" and "p < length (users c)"
  shows "case Rename p n c of
           Inl e \<Rightarrow> False
         | Inr (prev, ok, c1) \<Rightarrow>
             (ok \<longleftrightarrow> (\<forall>v \<in> set (us c). user_name (users c ! v) \<noteq> n)) \<and>
             (n = user_name (users c ! p) \<longrightarrow> \<not> ok) \<and>
             (\<not> ok \<longrightarrow> c1 = c) \<and>
             (ok \<longrightarrow>
                prev = user_name (users c ! p) \<and>
                ns c1 prev = None \<and> ns c1 n = Some p \<and>
                ns c1 = ((ns c)(prev := None))(n \<mapsto> p) \<and>
                user_name (users c1 ! p) = n \<and>
                users c1 = (users c)[p := (users c ! p)\<lparr>user_name := n\<rparr>] \<and>
                us c1 = us c \<and> seq c1 = seq c \<and> out c1 = out c)"
proof (cases "ns c n = None")
  case True
  from agree_member_name[OF assms(1,2)] True have neq: "user_name (users c ! p) \<noteq> n"
    by auto
  from True agree_free_iff[OF assms(1), of n]
  have free: "\<forall>v \<in> set (us c). user_name (users c ! v) \<noteq> n" by simp
  from True assms(3) neq free show ?thesis
    by (simp add: Rename_def Let_def)
next
  case False
  from False agree_free_iff[OF assms(1), of n]
  have "\<not> (\<forall>v \<in> set (us c). user_name (users c ! v) \<noteq> n)" by simp
  moreover from False obtain y where "ns c n = Some y" by auto
  ultimately show ?thesis
    by (simp add: Rename_def)
qed

lemma agree_c_two: "agree c_two"
  unfolding agree_def c_two_def
  by (auto simp: nth_Cons' split: if_splits)

theorem Rename_succeeds_iff_free_witness:
  "agree c_two \<and> 0 \<in> set (us c_two) \<and> 0 < length (users c_two) \<and>
   Rename 0 ''fox'' c_two = Inr (''cat'', True, c_two\<lparr>users := (users c_two)[0 := (users c_two ! 0)\<lparr>user_name := ''fox''\<rparr>], ns := ((ns c_two)(''cat'' := None))(''fox'' \<mapsto> 0)\<rparr>) \<and>
   Rename 0 ''dog'' c_two = Inr ([], False, c_two) \<and>
   Rename 0 ''cat'' c_two = Inr ([], False, c_two)"
  using Rename_succeeds_iff_free[OF agree_c_two, of 0 "''fox''"]
  by (simp add: agree_c_two) (simp add: c_two_def Rename_def)

section \<open>The registry invariant\<close>

lemma word_less_succ:
  fixes x y :: "64 word"
  shows "x < y \<Longrightarrow> y \<noteq> - 1 \<Longrightarrow> x < y + 1"
  using inc_less_eq_self_iff_eq[of y] by auto

lemma word_less_succ_self:
  fixes y :: "64 word"
  shows "y \<noteq> - 1 \<Longrightarrow> y < y + 1"
  using inc_less_eq_self_iff_eq[of y] by auto

lemma agree_dom: "agree c \<Longrightarrow> dom (ns c) = set (names c)"
  unfolding agree_def names_def by (auto simp: dom_def)

lemma agree_finite_dom: "agree c \<Longrightarrow> finite (dom (ns c))"
  by (simp add: agree_dom)

lemma agree_distinct_names:
  assumes "agree c"
  shows "distinct (names c)"
proof -
  from assms have d: "distinct (us c)" by (simp add: agree_def)
  have "inj_on (\<lambda>u. user_name (users c ! u)) (set (us c))"
  proof (rule inj_onI)
    fix u v assume "u \<in> set (us c)" "v \<in> set (us c)"
      and "user_name (users c ! u) = user_name (users c ! v)"
    with assms have "ns c (user_name (users c ! v)) = Some u" "ns c (user_name (users c ! v)) = Some v"
      unfolding agree_def by auto
    then show "u = v" by simp
  qed
  with d show ?thesis by (simp add: names_def distinct_map)
qed

lemma registry_inv_NewChat: "registry_inv NewChat"
  by (simp add: registry_inv_def agree_def NewChat_def)

lemma remove_member:
  assumes "registry_inv c" and "p \<in> set (us c)"
  shows "remove p c =
           Inr (True, c\<lparr>ns := (ns c)(user_name (users c ! p) := None), us := remove1 p (us c)\<rparr>)"
proof -
  from assms have len: "p < length (users c)" and d: "distinct (us c)"
    and held: "ns c (user_name (users c ! p)) = Some p"
    and srt: "sorted_wrt (<) (map (\<lambda>u. user_id (users c ! u)) (us c))"
    unfolding registry_inv_def agree_def by auto
  from assms(2) obtain k where k: "k < length (us c)" "us c ! k = p"
    by (auto simp: in_set_conv_nth)
  from Search_sorted_index[OF srt k(1)] k(2)
  have "Search (length (us c)) (\<lambda>i. user_id (users c ! p) \<le> user_id (users c ! (us c ! i))) = k"
    by simp
  moreover from take_drop_remove1[OF d k(1)] k(2)
  have "take k (us c) @ drop (Suc k) (us c) = remove1 p (us c)" by simp
  ultimately show ?thesis
    using len held k(1) by (simp add: remove_def Let_def)
qed

lemma remove_member_inv:
  assumes "registry_inv c" and "p \<in> set (us c)"
  shows "registry_inv (c\<lparr>ns := (ns c)(user_name (users c ! p) := None), us := remove1 p (us c)\<rparr>)"
proof -
  let ?c = "c\<lparr>ns := (ns c)(user_name (users c ! p) := None), us := remove1 p (us c)\<rparr>"
  from assms have ag: "agree c" and d: "distinct (us c)"
    and srt: "sorted_wrt (<) (map (\<lambda>u. user_id (users c ! u)) (us c))"
    and bnd: "\<forall>u \<in> set (us c). u < length (users c)"
    and ids: "\<forall>u \<in> set (us c). user_id (users c ! u) < seq c"
    unfolding registry_inv_def agree_def by auto
  from ag have m: "\<And>n u. ns c n = Some u \<longleftrightarrow> u \<in> set (us c) \<and> user_name (users c ! u) = n"
    unfolding agree_def by blast
  have "agree ?c"
    unfolding agree_def
  proof (intro conjI allI)
    fix n u
    show "ns ?c n = Some u \<longleftrightarrow> u \<in> set (us ?c) \<and> user_name (users ?c ! u) = n"
    proof (cases "n = user_name (users c ! p)")
      case True
      have "\<not> (u \<in> set (us c) \<and> u \<noteq> p \<and> user_name (users c ! u) = n)"
      proof
        assume a: "u \<in> set (us c) \<and> u \<noteq> p \<and> user_name (users c ! u) = n"
        then have "ns c n = Some u" using m by blast
        moreover from assms(2) True have "ns c n = Some p" using m by blast
        ultimately show False using a by simp
      qed
      with True d show ?thesis by auto
    next
      case False
      with d m[of n u] show ?thesis by auto
    qed
  next
    from d show "distinct (us ?c)" by simp
  qed
  moreover from bnd have "\<forall>u \<in> set (us ?c). u < length (users ?c)"
    by (auto dest: notin_set_remove1)
  moreover have "sorted_wrt (<) (map (\<lambda>u. user_id (users ?c ! u)) (us ?c))"
  proof -
    from srt have "sorted_wrt (\<lambda>x y. user_id (users c ! x) < user_id (users c ! y)) (us c)"
      by (simp add: sorted_wrt_map)
    then have "sorted_wrt (\<lambda>x y. user_id (users c ! x) < user_id (users c ! y))
                 (filter (\<lambda>y. p \<noteq> y) (us c))"
      by (rule sorted_wrt_filter)
    with d show ?thesis
      by (simp add: sorted_wrt_map distinct_remove1_removeAll removeAll_filter_not_eq)
  qed
  moreover from ids d have "\<forall>u \<in> set (us ?c). user_id (users ?c ! u) < seq ?c"
    by auto
  ultimately show ?thesis
    unfolding registry_inv_def by blast
qed

lemma Remove_member_inv:
  assumes "registry_inv c" and "p \<in> set (us c)"
  shows "\<exists>c1. Remove now p c = Inr c1 \<and> registry_inv c1"
proof -
  let ?c = "c\<lparr>ns := (ns c)(user_name (users c ! p) := None), us := remove1 p (us c)\<rparr>"
  let ?c1 = "Broadcast ''goodbye''
     (Some [''name'' \<mapsto> JString (user_name (users ?c ! p)), ''time'' \<mapsto> JInt64 now]) ?c"
  from remove_member[OF assms] have "Remove now p c = Inr ?c1"
    by (simp add: Remove_def)
  moreover from remove_member_inv[OF assms] have "registry_inv ?c1"
    by (simp add: registry_inv_def agree_def Broadcast_def)
  ultimately show ?thesis by blast
qed

lemma Rename_member_inv:
  assumes "registry_inv c" and "p \<in> set (us c)"
  shows "\<exists>prev ok c1. Rename p n c = Inr (prev, ok, c1) \<and> registry_inv c1"
proof (cases "ns c n = None")
  case False
  with assms(1) show ?thesis by (auto simp: Rename_def)
next
  case True
  let ?prev = "user_name (users c ! p)"
  let ?c = "c\<lparr>users := (users c)[p := (users c ! p)\<lparr>user_name := n\<rparr>],
              ns := ((ns c)(?prev := None))(n \<mapsto> p)\<rparr>"
  from assms have d: "distinct (us c)"
    and srt: "sorted_wrt (<) (map (\<lambda>u. user_id (users c ! u)) (us c))"
    and bnd: "\<forall>u \<in> set (us c). u < length (users c)"
    and ids: "\<forall>u \<in> set (us c). user_id (users c ! u) < seq c"
    unfolding registry_inv_def agree_def by auto
  from assms(1) have m: "\<And>n u. ns c n = Some u \<longleftrightarrow> u \<in> set (us c) \<and> user_name (users c ! u) = n"
    unfolding registry_inv_def agree_def by blast
  from bnd assms(2) have len: "p < length (users c)" by blast
  from m[of ?prev p] assms(2) have held: "ns c ?prev = Some p" by simp
  with True have neq: "?prev \<noteq> n" by auto
  have id_same: "\<And>u. user_id (users ?c ! u) = user_id (users c ! u)"
    using len by (simp add: nth_list_update)
  have name_new: "\<And>u. u < length (users c) \<Longrightarrow>
      user_name (users ?c ! u) = (if u = p then n else user_name (users c ! u))"
    by (simp add: nth_list_update)
  have "agree ?c"
    unfolding agree_def
  proof (intro conjI allI)
    fix k u
    show "ns ?c k = Some u \<longleftrightarrow> u \<in> set (us ?c) \<and> user_name (users ?c ! u) = k"
    proof (cases "u = p")
      case up: True
      show ?thesis
      proof (cases "k = n")
        case True
        with up assms(2) len show ?thesis by (simp add: nth_list_update)
      next
        case kn: False
        have "ns c k \<noteq> Some p \<or> k = ?prev" using m[of k p] by auto
        with kn up assms(2) len show ?thesis by (auto simp: nth_list_update)
      qed
    next
      case up: False
      show ?thesis
      proof (cases "u \<in> set (us c)")
        case False
        with m[of k u] up show ?thesis by auto
      next
        case mem: True
        with bnd have "u < length (users c)" by blast
        with up have nm: "user_name (users ?c ! u) = user_name (users c ! u)"
          by (simp add: nth_list_update)
        from mem m[of "user_name (users c ! u)" u] have hu: "ns c (user_name (users c ! u)) = Some u"
          by simp
        with True have "user_name (users c ! u) \<noteq> n" by auto
        moreover from hu held up have "user_name (users c ! u) \<noteq> ?prev" by auto
        ultimately show ?thesis using m[of k u] mem nm up by auto
      qed
    qed
  next
    from d show "distinct (us ?c)" by simp
  qed
  moreover from bnd have "\<forall>u \<in> set (us ?c). u < length (users ?c)" by simp
  moreover from srt have "sorted_wrt (<) (map (\<lambda>u. user_id (users ?c ! u)) (us ?c))"
    by (simp only: id_same) simp
  moreover from ids have "\<forall>u \<in> set (us ?c). user_id (users ?c ! u) < seq ?c"
    by (simp only: id_same) simp
  ultimately have "registry_inv ?c"
    unfolding registry_inv_def by blast
  moreover from True len have "Rename p n c = Inr (?prev, True, ?c)"
    by (simp add: Rename_def Let_def)
  ultimately show ?thesis by blast
qed

lemma Register_inv:
  assumes "registry_inv c" and "animals \<noteq> []" and "seq c \<noteq> - 1"
  shows "\<exists>u c1. Register animals rnd now c = Some (Inr (u, c1)) \<and> registry_inv c1"
proof -
  from assms(1) have ag: "agree c" and d: "distinct (us c)"
    and srt: "sorted_wrt (<) (map (\<lambda>u. user_id (users c ! u)) (us c))"
    and bnd: "\<forall>u \<in> set (us c). u < length (users c)"
    and ids: "\<forall>u \<in> set (us c). user_id (users c ! u) < seq c"
    unfolding registry_inv_def agree_def by auto
  from ag have m: "\<And>n u. ns c n = Some u \<longleftrightarrow> u \<in> set (us c) \<and> user_name (users c ! u) = n"
    unfolding agree_def by blast
  from randName_returns[OF agree_finite_dom[OF ag] assms(2)]
  obtain nm where nm: "randName animals rnd c = Some (Inr nm)" and free: "ns c nm = None"
    by blast
  let ?u = "length (users c)"
  let ?new = "\<lparr>user_id = seq c, user_name = nm,
               conn = [NoticeFrame (Request 0 ''hello'' (Some [''name'' \<mapsto> JString nm]))],
               closed = False\<rparr>"
  let ?c = "c\<lparr>users := users c @ [?new], us := us c @ [?u], ns := (ns c)(nm \<mapsto> ?u),
              seq := seq c + 1,
              out := out c @ [Request 0 ''greet'' (Some [''name'' \<mapsto> JString nm, ''time'' \<mapsto> JInt64 now])]\<rparr>"
  from nm have reg: "Register animals rnd now c = Some (Inr (?u, ?c))"
    by (simp add: Register_def Let_def writeNotice_def write_frame_def Broadcast_def)
  from bnd have fresh: "?u \<notin> set (us c)" by auto
  have old: "\<And>u. u \<in> set (us c) \<Longrightarrow> users ?c ! u = users c ! u"
    using bnd by (simp add: nth_append)
  have new: "users ?c ! ?u = ?new" by simp
  have "agree ?c"
    unfolding agree_def
  proof (intro conjI allI)
    fix k u
    show "ns ?c k = Some u \<longleftrightarrow> u \<in> set (us ?c) \<and> user_name (users ?c ! u) = k"
    proof (cases "u = ?u")
      case True
      with fresh m[of k ?u] show ?thesis by auto
    next
      case False
      show ?thesis
      proof (cases "u \<in> set (us c)")
        case mem: True
        from mem m[of "user_name (users c ! u)" u] free have "user_name (users c ! u) \<noteq> nm"
          by auto
        with False mem old[OF mem] m[of k u] show ?thesis by auto
      next
        case nomem: False
        with False m[of k u] show ?thesis by auto
      qed
    qed
  next
    from d fresh show "distinct (us ?c)" by simp
  qed
  moreover from bnd have "\<forall>u \<in> set (us ?c). u < length (users ?c)" by auto
  moreover have "sorted_wrt (<) (map (\<lambda>u. user_id (users ?c ! u)) (us ?c))"
  proof -
    have eq: "map (\<lambda>u. user_id (users ?c ! u)) (us c) = map (\<lambda>u. user_id (users c ! u)) (us c)"
      by (rule map_cong) (simp_all only: old)
    have "sorted_wrt (<) (map (\<lambda>u. user_id (users ?c ! u)) (us c))"
      by (subst eq) (rule srt)
    moreover have "\<forall>x \<in> set (us c). user_id (users ?c ! x) < user_id (users ?c ! ?u)"
    proof
      fix x assume x: "x \<in> set (us c)"
      with ids have "user_id (users c ! x) < seq c" by blast
      with old[OF x] show "user_id (users ?c ! x) < user_id (users ?c ! ?u)" by simp
    qed
    ultimately show ?thesis
      by (simp add: sorted_wrt_append)
  qed
  moreover have "\<forall>u \<in> set (us ?c). user_id (users ?c ! u) < seq ?c"
  proof
    fix u assume "u \<in> set (us ?c)"
    then consider "u = ?u" | "u \<in> set (us c)" by auto
    then show "user_id (users ?c ! u) < seq ?c"
    proof cases
      case 1
      with word_less_succ_self[OF assms(3)] show ?thesis by simp
    next
      case 2
      with ids have "user_id (users c ! u) < seq c" by blast
      from word_less_succ[OF this assms(3)] old[OF 2] show ?thesis by simp
    qed
  qed
  ultimately have "registry_inv ?c"
    unfolding registry_inv_def by blast
  with reg show ?thesis by blast
qed

lemma Rename_taken:
  assumes "ns c n \<noteq> None"
  shows "Rename p n c = Inr ([], False, c)"
proof -
  from assms obtain y where "ns c n = Some y" by auto
  then show ?thesis by (simp add: Rename_def)
qed

lemma Remove_absent_name:
  assumes "p < length (users c)" and "ns c (user_name (users c ! p)) = None"
  shows "Remove now p c = Inr c"
  using assms by (simp add: Remove_def remove_def)

lemma Register_empty_list: "Register [] rnd now c = Some (Inl IntnInvalidArgument)"
  by (simp add: Register_def randName_def randName_loop.simps)

lemma apply_op_inv:
  assumes "registry_inv c" and "proper_op x c"
  shows "case apply_op animals x c of
           Some (Inr c1) \<Rightarrow> registry_inv c1
         | Some (Inl p) \<Rightarrow> animals = []
         | None \<Rightarrow> False"
proof (cases x)
  case (OpRegister rnd now)
  show ?thesis
  proof (cases "animals = []")
    case True
    with OpRegister show ?thesis by (simp add: Register_empty_list)
  next
    case False
    from assms(2) OpRegister have "seq c \<noteq> - 1" by simp
    from Register_inv[OF assms(1) False this, of rnd now] OpRegister show ?thesis by auto
  qed
next
  case (OpRename p n)
  show ?thesis
  proof (cases "p \<in> set (us c)")
    case True
    from Rename_member_inv[OF assms(1) True, of n] OpRename show ?thesis by auto
  next
    case False
    with assms(2) OpRename have "ns c n \<noteq> None" by simp
    from Rename_taken[OF this, of p] OpRename assms(1) show ?thesis by simp
  qed
next
  case (OpRemove now p)
  show ?thesis
  proof (cases "p \<in> set (us c)")
    case True
    from Remove_member_inv[OF assms(1) True, of now] OpRemove show ?thesis by auto
  next
    case False
    with assms(2) OpRemove have "p < length (users c)" "ns c (user_name (users c ! p)) = None"
      by simp_all
    from Remove_absent_name[OF this, of now] OpRemove assms(1) show ?thesis by simp
  qed
qed

lemma run_inv:
  "registry_inv c \<Longrightarrow> proper_run animals xs c \<Longrightarrow>
     (case run animals xs c of
        Some (Inr c1) \<Rightarrow> registry_inv c1
      | Some (Inl p) \<Rightarrow> animals = []
      | None \<Rightarrow> False)"
proof (induction xs arbitrary: c)
  case Nil
  then show ?case by simp
next
  case (Cons x xs)
  from Cons.prems have px: "proper_op x c" by simp
  show ?case
  proof (cases "apply_op animals x c")
    case None
    with apply_op_inv[OF Cons.prems(1) px, of animals] show ?thesis by simp
  next
    case (Some r)
    show ?thesis
    proof (cases r)
      case (Inl p)
      with Some apply_op_inv[OF Cons.prems(1) px, of animals] show ?thesis by simp
    next
      case (Inr c1)
      with Some apply_op_inv[OF Cons.prems(1) px, of animals] have inv1: "registry_inv c1"
        by simp
      from Cons.prems(2) Some Inr have "proper_run animals xs c1" by simp
      from Cons.IH[OF inv1 this] Some Inr show ?thesis by simp
    qed
  qed
qed

lemmas registry_eval =
  Register_def randName_def randName_loop.simps NewChat_def writeNotice_def write_frame_def
  Broadcast_def Remove_def remove_def Rename_def Search_def Let_def animals0_def

lemma not_agree_unmapped_member:
  "ns c n = Some u \<Longrightarrow> u \<notin> set (us c) \<Longrightarrow> \<not> agree c"
  unfolding agree_def by blast

lemma proper_ops_members: "proper_run animals0 ops_members NewChat"
  by (simp add: registry_eval ops_members_def)

lemma agree_no_members: "us c = [] \<Longrightarrow> ns c = Map.empty \<Longrightarrow> agree c"
  by (simp add: agree_def)

text \<open>
  Claim C4 as stated fails where the two structures disagree, and for a participant that
  is not a member.  \<^verbatim>\<open>Rename\<close> looks only at the name index.  After the removed P
  has been renamed to fox, the member Q is refused the name fox although no active
  participant holds it, and Q succeeds in renaming to its own current name cat, whose
  entry is gone.  And in a registry whose structures agree, a removed P succeeds in
  renaming to its own stored name.
\<close>

theorem Rename_consults_index_only:
  "(case run animals0 ops_orphan_entry NewChat of
      Some (Inr c) \<Rightarrow>
        us c = [1] \<and> names c = [''cat''] \<and> user_name (users c ! 1) = ''cat'' \<and>
        Rename 1 ''fox'' c = Inr ([], False, c) \<and>
        (case Rename 1 ''cat'' c of
           Inr (prev, ok, c1) \<Rightarrow> ok \<and> prev = ''cat''
         | Inl e \<Rightarrow> False)
    | _ \<Rightarrow> False) \<and>
   (case run animals0 ops_removed NewChat of
      Some (Inr c) \<Rightarrow>
        agree c \<and> us c = [] \<and> user_name (users c ! 0) = ''cat'' \<and>
        (case Rename 0 ''cat'' c of
           Inr (prev, ok, c1) \<Rightarrow> ok \<and> prev = ''cat''
         | Inl e \<Rightarrow> False)
    | _ \<Rightarrow> False)"
  by (simp add: registry_eval ops_orphan_entry_def ops_removed_def names_def agree_no_members)

text \<open>
  Claim C3, as amended.  Take any sequence of \<^verbatim>\<open>Register\<close>, \<^verbatim>\<open>Rename\<close> and
  \<^verbatim>\<open>Remove\<close> calls from the empty registry in which every \<^verbatim>\<open>Rename\<close> of a user
  that is not a member at the time of the call asks for a name that is in the name index
  (so that it fails), every \<^verbatim>\<open>Remove\<close> of a user that is not a member finds the
  stored name of that user absent from the name index (so that it is the reported no-op),
  and \<^verbatim>\<open>Register\<close> is called before the id counter reaches its largest value;
  \<^verbatim>\<open>Rename\<close> and \<^verbatim>\<open>Remove\<close> of members are not restricted.  At the state
  such a sequence reaches, the membership slice and the name index describe the same
  membership, and the display names of the members are pairwise distinct.  Moreover the
  sequence never runs forever, and it panics only when the word list is empty.
\<close>

theorem members_agree_when_addressed:
  assumes "proper_run animals xs NewChat"
  shows "case run animals xs NewChat of
           Some (Inr c) \<Rightarrow> agree c \<and> distinct (names c)
         | Some (Inl p) \<Rightarrow> animals = []
         | None \<Rightarrow> False"
proof -
  from run_inv[OF registry_inv_NewChat assms]
  show ?thesis
    by (auto simp: registry_inv_def agree_distinct_names split: option.splits sum.splits)
qed

theorem members_agree_when_addressed_witness:
  "proper_run animals0 ops_members NewChat \<and>
   (case run animals0 ops_members NewChat of
      Some (Inr c) \<Rightarrow> agree c \<and> distinct (names c)
    | Some (Inl p) \<Rightarrow> animals0 = []
    | None \<Rightarrow> False)"
  using members_agree_when_addressed[OF proper_ops_members] proper_ops_members
  by simp

text \<open>
  Claim C3 as stated fails.  After P has been removed and Q has registered under the
  name P had, \<^verbatim>\<open>Rename\<close> applied to the removed P deletes the index entry of Q and
  maps the new name to P, who is not a member; the next registration is then given the
  name of Q, so two members carry the same display name.  A \<^verbatim>\<open>Remove\<close> of a
  removed participant whose stored name a member has taken breaks the agreement as well:
  it deletes the entry of the namesake and drops another member from the slice.
\<close>

theorem stale_Rename_breaks_agreement:
  "(case run animals0 ops_stale_rename NewChat of
      Some (Inr c) \<Rightarrow>
        us c = [1, 2] \<and> names c = [''cat'', ''cat''] \<and> ns c ''fox'' = Some 0 \<and>
        \<not> agree c \<and> \<not> distinct (names c)
    | _ \<Rightarrow> False) \<and>
   (case run animals0 ops_stale_remove NewChat of
      Some (Inr c) \<Rightarrow>
        us c = [0] \<and> names c = [''cat0''] \<and> ns c ''cat0'' = None \<and>
        ns c ''cat00'' = Some 2 \<and> \<not> agree c
    | _ \<Rightarrow> False)"
  by (simp add: registry_eval ops_stale_rename_def ops_stale_remove_def names_def
      not_agree_unmapped_member[of _ "''fox''" 0] not_agree_unmapped_member[of _ "''cat00''" 2])

section \<open>Remove applied to a participant that was removed before\<close>

text \<open>
  Claim C1 (the code departs from it).  \<^verbatim>\<open>remove\<close> recognises a removed participant
  by the absence of its stored name from the name index.  Once another participant holds
  that name, a second \<^verbatim>\<open>Remove(P)\<close> finds the name, deletes the entry of the
  namesake, removes the namesake from the membership slice, reports a removal and
  broadcasts a goodbye notice.
\<close>

theorem second_remove_evicts_namesake:
  "case run animals0 ops_namesake NewChat of
     Some (Inr c) \<Rightarrow>
       0 \<notin> set (us c) \<and> us c = [1] \<and> ns c ''cat'' = Some 1 \<and>
       remove 0 c = Inr (True, c\<lparr>ns := Map.empty, us := []\<rparr>) \<and>
       (case Remove 4 0 c of
          Inr c1 \<Rightarrow> out c1 = out c @ [Request 0 ''goodbye'' (Some [''name'' \<mapsto> JString ''cat'', ''time'' \<mapsto> JInt64 4])]
        | Inl e \<Rightarrow> False)
   | _ \<Rightarrow> False"
  by (simp add: registry_eval ops_namesake_def)

text \<open>
  Claim C2 (the code departs from it).  When the namesake has a smaller id than the
  removed participant and no member has a larger one, the id search of the second
  \<^verbatim>\<open>Remove\<close> runs off the end of the membership slice and the call panics with
  \<^verbatim>\<open>chat: inconsistent state\<close>.
\<close>

theorem stale_remove_panics:
  "case run animals0 ops_older_namesake NewChat of
     Some (Inr c) \<Rightarrow>
       1 \<notin> set (us c) \<and> us c = [0] \<and> ns c ''cat0'' = Some 0 \<and>
       remove 1 c = Inl InconsistentState \<and>
       Remove 4 1 c = Inl InconsistentState
   | _ \<Rightarrow> False"
  by (simp add: registry_eval ops_older_namesake_def)

section \<open>The receive step\<close>

text \<open>
  Claim C8, as amended.  A receive step of an allocated user: when \<^verbatim>\<open>readRequest\<close>
  returns an error (a read failure or a decode failure), the step closes the connection,
  returns that error, and writes nothing: no reply, no broadcast, no change of the
  registry.  When a request is decoded whose method is neither rename nor publish, the
  step writes the error reply with the id of the request and the text not implemented,
  leaves the connection open and the registry and the broadcast queue unchanged, and
  reports what the write of that reply returned: success when the write succeeded, the
  error of the write otherwise.
\<close>

theorem Receive_fatal_or_recoverable:
  assumes "u < length (users c)"
  shows "(case Receive u (rq, Some e) now werr c of
            Inl p \<Rightarrow> False
          | Inr (result, c1) \<Rightarrow>
              result = Some e \<and> closed (users c1 ! u) \<and>
              conn (users c1 ! u) = conn (users c ! u) \<and>
              c1 = Close u c \<and> out c1 = out c \<and> us c1 = us c \<and> ns c1 = ns c) \<and>
         (Method req \<noteq> ''rename'' \<and> Method req \<noteq> ''publish'' \<longrightarrow>
            (case Receive u (Some req, None) now werr c of
               Inl p \<Rightarrow> False
             | Inr (result, c1) \<Rightarrow>
                 result = werr \<and>
                 conn (users c1 ! u) =
                   conn (users c ! u) @
                     [ErrorFrame (Error (ID req) (Some [''error'' \<mapsto> JString ''not implemented'']))] \<and>
                 closed (users c1 ! u) = closed (users c ! u) \<and>
                 out c1 = out c \<and> us c1 = us c \<and> ns c1 = ns c))"
  using assms
  by (simp add: Receive_def Close_def writeErrorTo_def write_frame_def)

theorem Receive_fatal_or_recoverable_witness:
  "0 < length (users c_two) \<and>
   Receive 0 (None, Some ''EOF'') 9 None c_two = Inr (Some ''EOF'', Close 0 c_two) \<and>
   Receive 0 (Some req_unknown, None) 9 None c_two =
     Inr (None, write_frame 0
       (ErrorFrame (Error 7 (Some [''error'' \<mapsto> JString ''not implemented'']))) c_two)"
  using Receive_fatal_or_recoverable[where u=0 and c=c_two and e="''EOF''" and req=req_unknown and now=9 and werr=None and rq=None]
  by (simp add: c_two_def req_unknown_def Receive_def writeErrorTo_def)

text \<open>
  Claim C8 as stated fails in its second half: when the write of the not implemented
  reply fails, the step reports the error of the write, not success; the connection stays
  open.
\<close>

theorem unknown_method_reports_write_error:
  "Receive 0 (Some req_unknown, None) 9 (Some ''boom'') c_two =
     Inr (Some ''boom'', write_frame 0
       (ErrorFrame (Error 7 (Some [''error'' \<mapsto> JString ''not implemented'']))) c_two) \<and>
   \<not> closed (users (write_frame 0
       (ErrorFrame (Error 7 (Some [''error'' \<mapsto> JString ''not implemented'']))) c_two) ! 0)"
  by (simp add: c_two_def req_unknown_def Receive_def writeErrorTo_def write_frame_def)

text \<open>
  The rename branch in terms of the name index, which is what the code consults.
\<close>

lemma Receive_rename_by_index:
  assumes "u < length (users c)" and "Method req = ''rename''"
  shows "case Receive u (Some req, None) now werr c of
           Inl p \<Rightarrow> False
         | Inr (result, c1) \<Rightarrow>
             result = werr \<and>
             (case index_Object (Params req) ''name'' of
                Some (JString n) \<Rightarrow>
                  if ns c n \<noteq> None then
                    c1 = write_frame u
                           (ErrorFrame (Error (ID req) (Some [''error'' \<mapsto> JString ''already exists''])))
                           c \<and>
                    out c1 = out c \<and> us c1 = us c \<and> ns c1 = ns c \<and> seq c1 = seq c \<and>
                    map user_name (users c1) = map user_name (users c)
                  else
                    conn (users c1 ! u) =
                      conn (users c ! u) @ [ResultFrame (Response (ID req) None)] \<and>
                    out c1 =
                      out c @
                        [Request 0 ''rename''
                           (Some [''prev'' \<mapsto> JString (user_name (users c ! u)),
                                  ''name'' \<mapsto> JString n, ''time'' \<mapsto> JInt64 now])] \<and>
                    ns c1 = ((ns c)(user_name (users c ! u) := None))(n \<mapsto> u) \<and>
                    user_name (users c1 ! u) = n
              | _ \<Rightarrow>
                  c1 = write_frame u
                         (ErrorFrame (Error (ID req) (Some [''error'' \<mapsto> JString ''bad params''])))
                         c \<and>
                  out c1 = out c \<and> us c1 = us c \<and> ns c1 = ns c \<and> seq c1 = seq c \<and>
                  map user_name (users c1) = map user_name (users c))"
proof -
  have names_write: "\<And>x. map user_name (users (write_frame u x c)) = map user_name (users c)"
    using assms(1) by (simp add: write_frame_def map_update list_update_same_conv)
  show ?thesis
  proof (cases "index_Object (Params req) ''name''")
    case None
    with assms names_write show ?thesis
      by (simp add: Receive_def writeErrorTo_def) (simp add: write_frame_def)
  next
    case (Some v)
    show ?thesis
    proof (cases v)
      case (JString n)
      show ?thesis
      proof (cases "ns c n = None")
        case True
        with assms Some JString show ?thesis
          by (simp add: Receive_def Rename_def Let_def writeResultTo_def write_frame_def
              Broadcast_def)
      next
        case False
        then obtain y where "ns c n = Some y" by auto
        with assms Some JString names_write show ?thesis
          by (simp add: Receive_def Rename_def writeErrorTo_def) (simp add: write_frame_def)
      qed
    qed (use assms Some names_write in
          \<open>simp_all add: Receive_def writeErrorTo_def, simp_all add: write_frame_def\<close>)
  qed
qed

text \<open>
  Claim C7, as amended.  In a registry whose membership slice and name index describe the
  same membership, for every decoded rename request of an allocated user: when the
  parameters hold no string under name, the user receives the error reply bad params with
  the id of the request and nothing else changes; when the name collides, that is, an
  active participant holds it, the user receives the error reply already exists, no state
  is mutated and no rename notice is sent; otherwise the rename notice with the previous
  name, the new name and the time is broadcast, the name index and the stored name are
  updated, and the user receives a success reply with the id of the request whose result
  is the nil map (\<^verbatim>\<open>null\<close> on the wire), not the empty map.  The step returns what
  the write of the reply returned.
\<close>

theorem Receive_rename_replies:
  assumes "agree c" and "u < length (users c)" and "Method req = ''rename''"
  shows "case Receive u (Some req, None) now werr c of
           Inl p \<Rightarrow> False
         | Inr (result, c1) \<Rightarrow>
             result = werr \<and>
             (case index_Object (Params req) ''name'' of
                Some (JString n) \<Rightarrow>
                  if \<not> (\<forall>v \<in> set (us c). user_name (users c ! v) \<noteq> n) then
                    c1 = write_frame u
                           (ErrorFrame (Error (ID req) (Some [''error'' \<mapsto> JString ''already exists''])))
                           c \<and>
                    out c1 = out c \<and> us c1 = us c \<and> ns c1 = ns c \<and> seq c1 = seq c \<and>
                    map user_name (users c1) = map user_name (users c)
                  else
                    conn (users c1 ! u) =
                      conn (users c ! u) @ [ResultFrame (Response (ID req) None)] \<and>
                    out c1 =
                      out c @
                        [Request 0 ''rename''
                           (Some [''prev'' \<mapsto> JString (user_name (users c ! u)),
                                  ''name'' \<mapsto> JString n, ''time'' \<mapsto> JInt64 now])] \<and>
                    ns c1 = ((ns c)(user_name (users c ! u) := None))(n \<mapsto> u) \<and>
                    user_name (users c1 ! u) = n
              | _ \<Rightarrow>
                  c1 = write_frame u
                         (ErrorFrame (Error (ID req) (Some [''error'' \<mapsto> JString ''bad params''])))
                         c \<and>
                  out c1 = out c \<and> us c1 = us c \<and> ns c1 = ns c \<and> seq c1 = seq c \<and>
                  map user_name (users c1) = map user_name (users c))"
proof -
  have held: "\<And>n. (\<not> (\<forall>v \<in> set (us c). user_name (users c ! v) \<noteq> n)) = (ns c n \<noteq> None)"
    using agree_free_iff[OF assms(1)] by simp
  show ?thesis
    unfolding held by (rule Receive_rename_by_index[OF assms(2,3)])
qed

theorem Receive_rename_replies_witness:
  "agree c_two \<and> 0 < length (users c_two) \<and> Method req_rename_fox = ''rename'' \<and>
   (case Receive 0 (Some req_rename_fox, None) 9 None c_two of
      Inl p \<Rightarrow> False
    | Inr (result, c1) \<Rightarrow>
        result = None \<and>
        conn (users c1 ! 0) = [ResultFrame (Response 1 None)] \<and>
        out c1 = [Request 0 ''rename''
                    (Some [''prev'' \<mapsto> JString ''cat'', ''name'' \<mapsto> JString ''fox'',
                           ''time'' \<mapsto> JInt64 9])] \<and>
        ns c1 = [''dog'' \<mapsto> 1, ''fox'' \<mapsto> 0] \<and> user_name (users c1 ! 0) = ''fox'') \<and>
   Receive 0 (Some req_rename_dog, None) 9 None c_two =
     Inr (None, write_frame 0
       (ErrorFrame (Error 2 (Some [''error'' \<mapsto> JString ''already exists'']))) c_two) \<and>
   Receive 0 (Some req_rename_bad, None) 9 None c_two =
     Inr (None, write_frame 0
       (ErrorFrame (Error 3 (Some [''error'' \<mapsto> JString ''bad params'']))) c_two)"
proof -
  have a: "0 < length (users c_two)" by (simp add: c_two_def)
  have b: "Method req_rename_fox = ''rename''" by (simp add: req_rename_fox_def)
  have i: "index_Object (Params req_rename_fox) ''name'' = Some (JString ''fox'')"
    by (simp add: req_rename_fox_def index_Object_def)
  have f: "\<forall>v \<in> set (us c_two). user_name (users c_two ! v) \<noteq> ''fox''"
    by (simp add: c_two_def)
  have dog: "Receive 0 (Some req_rename_dog, None) 9 None c_two =
     Inr (None, write_frame 0
       (ErrorFrame (Error 2 (Some [''error'' \<mapsto> JString ''already exists'']))) c_two)"
    by (simp add: Receive_def req_rename_dog_def index_Object_def Rename_def writeErrorTo_def)
       (simp add: c_two_def)
  have bad: "Receive 0 (Some req_rename_bad, None) 9 None c_two =
     Inr (None, write_frame 0
       (ErrorFrame (Error 3 (Some [''error'' \<mapsto> JString ''bad params'']))) c_two)"
    by (simp add: Receive_def req_rename_bad_def index_Object_def writeErrorTo_def)
       (simp add: c_two_def)
  from Receive_rename_replies[OF agree_c_two a b, where now=9 and werr=None] a b have
    "0 < length (users c_two) \<and> Method req_rename_fox = ''rename'' \<and>
     (case Receive 0 (Some req_rename_fox, None) 9 None c_two of
        Inl p \<Rightarrow> False
      | Inr (result, c1) \<Rightarrow>
          result = None \<and>
          conn (users c1 ! 0) = [ResultFrame (Response 1 None)] \<and>
          out c1 = [Request 0 ''rename''
                      (Some [''prev'' \<mapsto> JString ''cat'', ''name'' \<mapsto> JString ''fox'',
                             ''time'' \<mapsto> JInt64 9])] \<and>
          ns c1 = [''dog'' \<mapsto> 1, ''fox'' \<mapsto> 0] \<and> user_name (users c1 ! 0) = ''fox'')"
    by (auto simp: i f split: sum.splits) (auto simp: c_two_def req_rename_fox_def)
  with dog bad agree_c_two show ?thesis by simp
qed

text \<open>
  Claim C7 as stated fails in two ways.  The success reply carries the nil map that
  \<^verbatim>\<open>writeResultTo(req, nil)\<close> passes, which is not the empty mapping.  And the
  handler decides a collision by the name index alone: where the index and the membership
  slice disagree, R is given the name cat that the member Q holds, with a success reply,
  and R is refused the name fox that no active participant holds.
\<close>

theorem rename_reply_result_is_nil:
  "(case Receive 0 (Some req_rename_fox, None) 9 None c_two of
      Inl p \<Rightarrow> False
    | Inr (result, c1) \<Rightarrow>
        conn (users c1 ! 0) = [ResultFrame (Response 1 None)] \<and>
        conn (users c1 ! 0) \<noteq> [ResultFrame (Response 1 (Some Map.empty))]) \<and>
   (case run animals0 ops_orphan_entry_dog NewChat of
      Some (Inr c) \<Rightarrow>
        us c = [1, 2] \<and> names c = [''cat'', ''dog''] \<and>
        (case Receive 2 (Some req_rename_cat, None) 9 None c of
           Inl p \<Rightarrow> False
         | Inr (result, c1) \<Rightarrow>
             last (conn (users c1 ! 2)) = ResultFrame (Response 4 None) \<and>
             names c1 = [''cat'', ''cat'']) \<and>
        (case Receive 2 (Some req_rename_fox, None) 9 None c of
           Inl p \<Rightarrow> False
         | Inr (result, c1) \<Rightarrow>
             last (conn (users c1 ! 2)) =
               ErrorFrame (Error 1 (Some [''error'' \<mapsto> JString ''already exists''])) \<and>
             names c1 = [''cat'', ''dog''])
    | _ \<Rightarrow> False)"
  by (simp add: Receive_def req_rename_fox_def req_rename_cat_def index_Object_def c_two_def
      writeResultTo_def writeErrorTo_def registry_eval ops_orphan_entry_dog_def
      ops_orphan_entry_def names_def)

text \<open>
  Claim C5 (the code departs from it).  A publish request that is decoded without
  parameters has a nil map; the assignment of author to it panics, so nothing is broadcast
  and the step does not return.
\<close>

theorem publish_without_params_panics:
  "Receive 0 (Some req_publish_nil, None) 9 None c_two = Inl NilMapAssignment"
  by (simp add: Receive_def req_publish_nil_def c_two_def)

text \<open>With a parameter map the step broadcasts the augmented parameters and replies nothing.\<close>

lemma Receive_publish_map:
  assumes "u < length (users c)"
  shows "Receive u (Some (Request i ''publish'' (Some m)), None) now werr c =
           Inr (None, c\<lparr>out := out c @
             [Request 0 ''publish''
                (Some (m(''author'' \<mapsto> JString (user_name (users c ! u)), ''time'' \<mapsto> JInt64 now)))]\<rparr>)"
  using assms by (simp add: Receive_def Broadcast_def)

section \<open>Order of delivery\<close>

lemma conn_writeRaw:
  "u < length (users c) \<Longrightarrow>
     conn (users (writeRaw v p c) ! u) =
       (if v = u then conn (users c ! u) @ [NoticeFrame p] else conn (users c ! u))"
  by (simp add: writeRaw_def write_frame_def nth_list_update)

lemma length_users_writeRaw: "length (users (writeRaw v p c)) = length (users c)"
  by (simp add: writeRaw_def write_frame_def)

lemma filter_without_nth:
  assumes "i < length pending" and "fst (pending ! i) \<notin> set (map fst (take i pending))"
  shows "filter (\<lambda>t. fst t = u) pending =
           (if fst (pending ! i) = u then [pending ! i] else []) @
             filter (\<lambda>t. fst t = u) (take i pending @ drop (Suc i) pending)"
proof -
  have split: "pending = take i pending @ pending ! i # drop (Suc i) pending"
    using assms(1) by (rule id_take_nth_drop)
  show ?thesis
  proof (cases "fst (pending ! i) = u")
    case True
    have "\<forall>t \<in> set (take i pending). fst t \<noteq> u"
    proof
      fix t assume "t \<in> set (take i pending)"
      then have "fst t \<in> set (map fst (take i pending))" by simp
      with assms(2) True show "fst t \<noteq> u" by metis
    qed
    then have "filter (\<lambda>t. fst t = u) (take i pending) = []"
      by (simp add: filter_empty_conv)
    with True show ?thesis
      by (subst split) simp
  next
    case False
    then show ?thesis
      by (subst split) simp
  qed
qed

lemma pool_run_in_order:
  "u < length (users c) \<Longrightarrow> runs_in_order sched pending \<Longrightarrow>
     conn (users (pool_run sched pending c) ! u) =
       conn (users c ! u) @ map (NoticeFrame \<circ> snd) (filter (\<lambda>t. fst t = u) pending)"
proof (induction sched arbitrary: pending c)
  case Nil
  then show ?case by simp
next
  case (Cons i sched)
  show ?case
  proof (cases "i < length pending")
    case False
    with Cons.prems have "runs_in_order sched pending" by simp
    from Cons.IH[OF Cons.prems(1) this] False show ?thesis by simp
  next
    case True
    let ?t = "pending ! i"
    let ?rest = "take i pending @ drop (Suc i) pending"
    from True Cons.prems(2) have first: "fst ?t \<notin> set (map fst (take i pending))"
      and rest: "runs_in_order sched ?rest" by simp_all
    have len: "u < length (users (writeRaw (fst ?t) (snd ?t) c))"
      using Cons.prems(1) by (simp add: length_users_writeRaw)
    from Cons.IH[OF len rest] True
    have "conn (users (pool_run (i # sched) pending c) ! u) =
            conn (users (writeRaw (fst ?t) (snd ?t) c) ! u) @
              map (NoticeFrame \<circ> snd) (filter (\<lambda>t. fst t = u) ?rest)"
      by simp
    also have "\<dots> =
        conn (users c ! u) @ map (NoticeFrame \<circ> snd) (filter (\<lambda>t. fst t = u) pending)"
      by (subst filter_without_nth[OF True first, of u])
         (simp add: conn_writeRaw[OF Cons.prems(1)])
    finally show ?thesis .
  qed
qed

lemma runs_in_order_fifo: "runs_in_order (fifo pending) pending"
  unfolding fifo_def by (induction pending) simp_all

lemma tasks_of_snapshot:
  "map snd (filter (\<lambda>t. fst t = u) (map (\<lambda>v. (v, bts)) snapshot)) =
     replicate (count_list snapshot u) bts"
  by (induction snapshot) auto

lemma tasks_of_writer:
  "map snd (filter (\<lambda>t. fst t = u) (writer q)) =
     concat (map (\<lambda>(bts, snapshot). replicate (count_list snapshot u) bts) q)"
proof (induction q)
  case Nil
  then show ?case by simp
next
  case (Cons x q)
  obtain bts snapshot where x: "x = (bts, snapshot)" by (cases x)
  from Cons show ?case
    by (simp add: x tasks_of_snapshot)
qed

text \<open>
  Claim C6, as amended.  The dispatcher schedules the write tasks in the order of the
  queue.  With every pool that runs all scheduled tasks and does not reorder the tasks of
  one participant (tasks of different participants may run in any order), the connection
  of every allocated user receives, after what it had, the messages of the queue in
  enqueue order, each once for every occurrence of the user in the membership slice read
  for that message: a participant connected for A and B observes A before B.
\<close>

theorem ordered_pool_keeps_enqueue_order:
  assumes "u < length (users c)" and "runs_in_order sched (writer q)"
  shows "conn (users (pool_run sched (writer q) c) ! u) =
           conn (users c ! u) @
             map NoticeFrame
               (concat (map (\<lambda>(bts, snapshot). replicate (count_list snapshot u) bts) q))"
proof -
  have "map (NoticeFrame \<circ> snd) (filter (\<lambda>t. fst t = u) (writer q)) =
          map NoticeFrame (map snd (filter (\<lambda>t. fst t = u) (writer q)))"
    by simp
  with pool_run_in_order[OF assms] tasks_of_writer[of u q]
  show ?thesis by simp
qed

theorem ordered_pool_keeps_enqueue_order_witness:
  "1 < length (users c_two) \<and>
   runs_in_order [1, 0, 1, 0] (writer [(msgA, [0, 1]), (msgB, [0, 1])]) \<and>
   [1, 0, 1, 0] \<noteq> fifo (writer [(msgA, [0, 1]), (msgB, [0, 1])]) \<and>
   conn (users (pool_run [1, 0, 1, 0] (writer [(msgA, [0, 1]), (msgB, [0, 1])]) c_two) ! 1) =
     [NoticeFrame msgA, NoticeFrame msgB]"
proof -
  have a: "1 < length (users c_two)" by (simp add: c_two_def)
  have b: "runs_in_order [1, 0, 1, 0] (writer [(msgA, [0, 1]), (msgB, [0, 1])])" by simp
  from ordered_pool_keeps_enqueue_order[OF a b] a b
  show ?thesis by (simp add: c_two_def fifo_def)
qed

text \<open>
  Claim C6 as stated fails: a pool that promises no order between tasks may run the task
  that writes B to a user before the task that writes A to the same user.
\<close>

theorem pool_may_deliver_out_of_order:
  "writer [(msgA, us c_two), (msgB, us c_two)] = [(0, msgA), (1, msgA), (0, msgB), (1, msgB)] \<and>
   conn (users (pool_run [2, 0, 0, 0] (writer [(msgA, us c_two), (msgB, us c_two)]) c_two) ! 0) =
     [NoticeFrame msgB, NoticeFrame msgA]"
  by (simp add: c_two_def writeRaw_def write_frame_def)

section \<open>Mutual exclusion of reads and writes on one connection\<close>

lemma at_call_path: "at_call (path cl)"
  by (cases cl) (simp_all add: at_call_def)

lemma not_in_section_path: "\<not> in_section (path cl)"
  by (cases cl) (simp_all add: in_section_def)

lemma io_inv_init: "io_inv (io_init calls)"
  by (simp add: io_inv_def io_init_def at_call_def in_section_def)

lemma io_step_inv:
  assumes "io_inv s"
  shows "io_inv (io_step t s)"
proof (cases "length (pcs s) \<le> t \<or> length (todo s) \<le> t")
  case True
  with assms show ?thesis by (simp add: io_step_def)
next
  case False
  then have t: "t < length (pcs s)" "t < length (todo s)" by auto
  from assms have no: "\<not> overlap s"
    and shape: "\<And>v. v < length (pcs s) \<Longrightarrow> at_call (pcs s ! v) \<or> in_section (pcs s ! v)"
    and own: "\<And>v. v < length (pcs s) \<Longrightarrow> in_section (pcs s ! v) \<Longrightarrow> holder s = Some v"
    and rd: "reading s \<Longrightarrow> \<exists>v < length (pcs s). pcs s ! v = [ReadEnd, UnlockIO]"
    unfolding io_inv_def by auto
  have rd_own: "\<And>v. reading s \<Longrightarrow> holder s = Some v \<Longrightarrow> pcs s ! v = [ReadEnd, UnlockIO]"
  proof -
    fix v assume "reading s" "holder s = Some v"
    from rd[OF this(1)] obtain w where w: "w < length (pcs s)" "pcs s ! w = [ReadEnd, UnlockIO]"
      by blast
    then have "in_section (pcs s ! w)" by (simp add: in_section_def)
    from own[OF w(1) this] \<open>holder s = Some v\<close> w(2) show "pcs s ! v = [ReadEnd, UnlockIO]"
      by simp
  qed
  from shape[OF t(1)] consider
      (idle_call) "pcs s ! t = []"
    | (lock_read) "pcs s ! t = [LockIO, ReadBegin, ReadEnd, UnlockIO]"
    | (lock_write) "pcs s ! t = [LockIO, WriteBytes, UnlockIO]"
    | (read_begin) "pcs s ! t = [ReadBegin, ReadEnd, UnlockIO]"
    | (read_end) "pcs s ! t = [ReadEnd, UnlockIO]"
    | (write_bytes) "pcs s ! t = [WriteBytes, UnlockIO]"
    | (unlock_io) "pcs s ! t = [UnlockIO]"
    unfolding at_call_def in_section_def by blast
  then show ?thesis
  proof cases
    case idle_call
    show ?thesis
    proof (cases "todo s ! t")
      case Nil
      with idle_call False assms show ?thesis by (simp add: io_step_def)
    next
      case (Cons cl rest)
      have step: "io_step t s = s\<lparr>pcs := (pcs s)[t := path cl], todo := (todo s)[t := rest]\<rparr>"
        using idle_call Cons False by (simp add: io_step_def)
      have still: "reading s \<Longrightarrow>
          \<exists>v < length (pcs s). (pcs s)[t := path cl] ! v = [ReadEnd, UnlockIO]"
      proof -
        assume "reading s"
        from rd[OF this] obtain v where v: "v < length (pcs s)" "pcs s ! v = [ReadEnd, UnlockIO]"
          by blast
        with idle_call have "v \<noteq> t" by auto
        with v show ?thesis by (intro exI[of _ v]) simp
      qed
      have "\<And>v. v < length (pcs s) \<Longrightarrow>
          at_call ((pcs s)[t := path cl] ! v) \<or> in_section ((pcs s)[t := path cl] ! v)"
        using shape at_call_path[of cl] t by (auto simp: nth_list_update)
      moreover have "\<And>v. v < length (pcs s) \<Longrightarrow> in_section ((pcs s)[t := path cl] ! v) \<Longrightarrow>
          holder s = Some v"
        using own not_in_section_path[of cl] t by (auto simp: nth_list_update split: if_splits)
      ultimately show ?thesis
        unfolding step io_inv_def
        using no still by simp
    qed
  next
    case lock_read
    show ?thesis
    proof (cases "holder s = None")
      case False
      with lock_read t assms show ?thesis by (auto simp: io_step_def)
    next
      case True
      have step: "io_step t s = s\<lparr>holder := Some t, pcs := (pcs s)[t := [ReadBegin, ReadEnd, UnlockIO]]\<rparr>"
        using lock_read True t by (simp add: io_step_def)
      from True own have none: "\<And>v. v < length (pcs s) \<Longrightarrow> \<not> in_section (pcs s ! v)"
        by fastforce
      from none rd have nr: "\<not> reading s" by (auto simp: in_section_def)
      show ?thesis
        unfolding step io_inv_def
        using no shape none nr t by (auto simp: nth_list_update in_section_def)
    qed
  next
    case lock_write
    show ?thesis
    proof (cases "holder s = None")
      case False
      with lock_write t assms show ?thesis by (auto simp: io_step_def)
    next
      case True
      have step: "io_step t s = s\<lparr>holder := Some t, pcs := (pcs s)[t := [WriteBytes, UnlockIO]]\<rparr>"
        using lock_write True t by (simp add: io_step_def)
      from True own have none: "\<And>v. v < length (pcs s) \<Longrightarrow> \<not> in_section (pcs s ! v)"
        by fastforce
      from none rd have nr: "\<not> reading s" by (auto simp: in_section_def)
      show ?thesis
        unfolding step io_inv_def
        using no shape none nr t by (auto simp: nth_list_update in_section_def)
    qed
  next
    case read_begin
    have step: "io_step t s = s\<lparr>reading := True, pcs := (pcs s)[t := [ReadEnd, UnlockIO]]\<rparr>"
      using read_begin t by (simp add: io_step_def)
    from read_begin own[OF t(1)] have h: "holder s = Some t" by (simp add: in_section_def)
    have others: "\<And>v. v < length (pcs s) \<Longrightarrow> v \<noteq> t \<Longrightarrow> \<not> in_section (pcs s ! v)"
      using own h by fastforce
    show ?thesis
      unfolding step io_inv_def
      using no shape h others t by (auto simp: nth_list_update in_section_def)
  next
    case read_end
    have step: "io_step t s = s\<lparr>reading := False, pcs := (pcs s)[t := [UnlockIO]]\<rparr>"
      using read_end t by (simp add: io_step_def)
    from read_end own[OF t(1)] have h: "holder s = Some t" by (simp add: in_section_def)
    have others: "\<And>v. v < length (pcs s) \<Longrightarrow> v \<noteq> t \<Longrightarrow> \<not> in_section (pcs s ! v)"
      using own h by fastforce
    show ?thesis
      unfolding step io_inv_def
      using no shape h others t by (auto simp: nth_list_update in_section_def)
  next
    case write_bytes
    from write_bytes own[OF t(1)] have h: "holder s = Some t" by (simp add: in_section_def)
    from rd_own[OF _ h] write_bytes have nr: "\<not> reading s" by auto
    have step: "io_step t s = s\<lparr>overlap := False, pcs := (pcs s)[t := [UnlockIO]]\<rparr>"
      using write_bytes t no nr by (simp add: io_step_def)
    have others: "\<And>v. v < length (pcs s) \<Longrightarrow> v \<noteq> t \<Longrightarrow> \<not> in_section (pcs s ! v)"
      using own h by fastforce
    show ?thesis
      unfolding step io_inv_def
      using no shape h others t nr by (auto simp: nth_list_update in_section_def)
  next
    case unlock_io
    from unlock_io own[OF t(1)] have h: "holder s = Some t" by (simp add: in_section_def)
    from rd_own[OF _ h] unlock_io have nr: "\<not> reading s" by auto
    have step: "io_step t s = s\<lparr>holder := None, pcs := (pcs s)[t := []]\<rparr>"
      using unlock_io t by (simp add: io_step_def)
    have others: "\<And>v. v < length (pcs s) \<Longrightarrow> v \<noteq> t \<Longrightarrow> \<not> in_section (pcs s ! v)"
      using own h by fastforce
    show ?thesis
      unfolding step io_inv_def
      using no shape h others t nr by (auto simp: nth_list_update in_section_def at_call_def)
  qed
qed

lemma io_run_inv: "io_inv s \<Longrightarrow> io_inv (io_run sched s)"
  by (induction sched arbitrary: s) (simp_all add: io_step_inv)

text \<open>
  Claim C10.  Whatever calls of \<^verbatim>\<open>readRequest\<close>, \<^verbatim>\<open>write\<close> and
  \<^verbatim>\<open>writeRaw\<close> the goroutines make on one user and however they are scheduled: no
  bytes are written while a frame read is in progress; and while a read is in progress,
  the reader holds the mutex, no goroutine is at its write, and a goroutine that has
  started a call waits at the lock (its step changes nothing).
\<close>

theorem no_write_while_reading:
  "\<not> overlap (io_run sched (io_init calls)) \<and>
   (reading (io_run sched (io_init calls)) \<longrightarrow>
      (\<exists>r < length (pcs (io_run sched (io_init calls))).
         holder (io_run sched (io_init calls)) = Some r \<and>
         pcs (io_run sched (io_init calls)) ! r = [ReadEnd, UnlockIO]) \<and>
      (\<forall>t < length (pcs (io_run sched (io_init calls))).
         pcs (io_run sched (io_init calls)) ! t \<noteq> [WriteBytes, UnlockIO] \<and>
         (\<forall>cl. pcs (io_run sched (io_init calls)) ! t = path cl \<longrightarrow>
            io_step t (io_run sched (io_init calls)) = io_run sched (io_init calls))))"
proof -
  let ?s = "io_run sched (io_init calls)"
  have inv: "io_inv ?s" by (rule io_run_inv) (rule io_inv_init)
  then have no: "\<not> overlap ?s"
    and own: "\<And>v. v < length (pcs ?s) \<Longrightarrow> in_section (pcs ?s ! v) \<Longrightarrow> holder ?s = Some v"
    and rd: "reading ?s \<Longrightarrow> \<exists>v < length (pcs ?s). pcs ?s ! v = [ReadEnd, UnlockIO]"
    unfolding io_inv_def by auto
  have "reading ?s \<longrightarrow>
      (\<exists>r < length (pcs ?s). holder ?s = Some r \<and> pcs ?s ! r = [ReadEnd, UnlockIO]) \<and>
      (\<forall>t < length (pcs ?s). pcs ?s ! t \<noteq> [WriteBytes, UnlockIO] \<and>
         (\<forall>cl. pcs ?s ! t = path cl \<longrightarrow> io_step t ?s = ?s))"
  proof
    assume "reading ?s"
    from rd[OF this] obtain r where r: "r < length (pcs ?s)" "pcs ?s ! r = [ReadEnd, UnlockIO]"
      by blast
    then have "in_section (pcs ?s ! r)" by (simp add: in_section_def)
    from own[OF r(1) this] have h: "holder ?s = Some r" .
    have "\<forall>t < length (pcs ?s). pcs ?s ! t \<noteq> [WriteBytes, UnlockIO] \<and>
         (\<forall>cl. pcs ?s ! t = path cl \<longrightarrow> io_step t ?s = ?s)"
    proof (intro allI impI conjI)
      fix t assume t: "t < length (pcs ?s)"
      show "pcs ?s ! t \<noteq> [WriteBytes, UnlockIO]"
      proof
        assume w: "pcs ?s ! t = [WriteBytes, UnlockIO]"
        then have "in_section (pcs ?s ! t)" by (simp add: in_section_def)
        from own[OF t this] h have "t = r" by simp
        with w r(2) show False by simp
      qed
    next
      fix t cl assume "t < length (pcs ?s)" and p: "pcs ?s ! t = path cl"
      with h show "io_step t ?s = ?s"
        by (cases cl) (simp_all add: io_step_def)
    qed
    with r h show "(\<exists>r < length (pcs ?s). holder ?s = Some r \<and> pcs ?s ! r = [ReadEnd, UnlockIO]) \<and>
      (\<forall>t < length (pcs ?s). pcs ?s ! t \<noteq> [WriteBytes, UnlockIO] \<and>
         (\<forall>cl. pcs ?s ! t = path cl \<longrightarrow> io_step t ?s = ?s))"
      by blast
  qed
  with no show ?thesis by blast
qed

lemma run_read_then_write:
  "io_run sched_read_then_write (io_init calls_read_write) =
     \<lparr>holder = Some 0, reading = True,
      pcs = [[ReadEnd, UnlockIO], [LockIO, WriteBytes, UnlockIO]], todo = [[], []],
      overlap = False\<rparr>"
  by (simp add: sched_read_then_write_def calls_read_write_def io_init_def io_step_def)

theorem no_write_while_reading_witness:
  "reading (io_run sched_read_then_write (io_init calls_read_write)) \<and>
   holder (io_run sched_read_then_write (io_init calls_read_write)) = Some 0 \<and>
   pcs (io_run sched_read_then_write (io_init calls_read_write)) ! 1 = path CallWriteRaw \<and>
   io_step 1 (io_run sched_read_then_write (io_init calls_read_write)) =
     io_run sched_read_then_write (io_init calls_read_write) \<and>
   \<not> overlap (io_run sched_read_then_write (io_init calls_read_write))"
  using no_write_while_reading[of sched_read_then_write calls_read_write]
  by (simp add: run_read_then_write io_step_def)

end
